theory Spec2Isabelle
  imports Complex_Main "HOL-Library.Multiset" "HOL-Library.Log_Nat"
begin

section \<open>Time\<close>

text \<open>
  Go's \<open>time.Duration\<close> is a signed 64-bit count of nanoseconds. Arithmetic on it wraps
  around silently; it is modelled on \<open>int\<close> with the wrap-around written out by
  \<open>wrap64\<close>. A \<open>time.Time\<close> is modelled as the number of nanoseconds since some fixed
  origin, an unbounded \<open>int\<close>.
\<close>

type_synonym duration = int
type_synonym time = int

definition wrap64 :: "int \<Rightarrow> int" where
  "wrap64 x = (x + 2 ^ 63) mod 2 ^ 64 - 2 ^ 63"

definition Second :: duration where
  "Second = 1000000000"

definition mul64 :: "int \<Rightarrow> int \<Rightarrow> int" where
  "mul64 a b = wrap64 (a * b)"

text \<open>
  \<open>1 << n\<close> on a signed 64-bit operand: a negative shift count panics (\<open>None\<close>), a
  count of 64 or more shifts every bit out.
\<close>

definition shl64 :: "int \<Rightarrow> int \<Rightarrow> int option" where
  "shl64 a n = (if n < 0 then None else if 64 \<le> n then Some 0 else Some (wrap64 (a * 2 ^ nat n)))"

section \<open>Job queue (internal/worker/job\_queue.go, internal/repository/job\_repository.go)\<close>

text \<open>The in-memory job. The payload is never read by the functions below and is left out.\<close>

record Job =
  job_ID :: int
  job_Type :: string
  job_Retries :: int
  job_MaxRetries :: int

text \<open>
  A row of the \<open>jobs\<close> table, with the columns the statements below read or write
  (\<open>created_at\<close> and \<open>updated_at\<close> are left out).
\<close>

record job_row =
  row_id :: int
  row_type :: string
  row_status :: string
  row_retries :: int
  row_max_retries :: int
  row_next_run_at :: time
  row_error_message :: "string option"

datatype db_error = ExecFailed

text \<open>
  Every repository call is one \<open>UPDATE ... WHERE id = ?\<close>. The flag \<open>ok\<close> says whether
  \<open>db.Exec\<close> succeeds; when it fails the table is unchanged and the error is returned.
\<close>

definition UpdateJobStatus ::
  "bool \<Rightarrow> int \<Rightarrow> string \<Rightarrow> string option \<Rightarrow> job_row list \<Rightarrow> db_error option \<times> job_row list" where
  "UpdateJobStatus ok i status errorMessage tbl =
     (if ok
      then (None, map (\<lambda>r. if row_id r = i
                             then r\<lparr>row_status := status, row_error_message := errorMessage\<rparr>
                             else r) tbl)
      else (Some ExecFailed, tbl))"

definition MarkJobFailed ::
  "bool \<Rightarrow> int \<Rightarrow> string \<Rightarrow> job_row list \<Rightarrow> db_error option \<times> job_row list" where
  "MarkJobFailed ok i errorMessage tbl = UpdateJobStatus ok i ''failed'' (Some errorMessage) tbl"

definition IncrementJobRetries ::
  "bool \<Rightarrow> int \<Rightarrow> time \<Rightarrow> string \<Rightarrow> job_row list \<Rightarrow> db_error option \<times> job_row list" where
  "IncrementJobRetries ok i nextRunAt errorMessage tbl =
     (if ok
      then (None, map (\<lambda>r. if row_id r = i
                             then r\<lparr>row_retries := row_retries r + 1,
                                   row_next_run_at := nextRunAt,
                                   row_error_message := Some errorMessage,
                                   row_status := ''pending''\<rparr>
                             else r) tbl)
      else (Some ExecFailed, tbl))"

text \<open>
  The backoff of \<open>RetryJob\<close>:
  \<^verbatim>\<open>delay := time.Duration(1<<job.Retries) * time.Second
  if delay > 60*time.Second { delay = 60 * time.Second }\<close>
  The constant \<open>1\<close> takes the type \<open>time.Duration\<close>, so both the shift and the
  multiplication are 64-bit.
\<close>

definition retry_delay :: "int \<Rightarrow> duration option" where
  "retry_delay retries =
     (case shl64 1 retries of
        None \<Rightarrow> None
      | Some p \<Rightarrow>
          (let delay = mul64 p Second
           in Some (if delay > 60 * Second then 60 * Second else delay)))"

datatype retry_outcome = Panicked | Returned "db_error option"

text \<open>
  \<open>RetryJob\<close>; \<open>now\<close> is the value \<open>time.Now()\<close> returns. The prefix that
  \<open>fmt.Sprintf\<close> puts before the message is Chinese text in the source (it reads
  "maximum number of retries reached"); it is written in English here.
\<close>

definition max_retries_prefix :: string where
  "max_retries_prefix = ''max retries reached: ''"

definition RetryJob ::
  "bool \<Rightarrow> time \<Rightarrow> Job \<Rightarrow> string \<Rightarrow> job_row list \<Rightarrow> retry_outcome \<times> job_row list" where
  "RetryJob ok now job errorMessage tbl =
     (if job_Retries job \<ge> job_MaxRetries job
      then (let (e, tbl') = MarkJobFailed ok (job_ID job) (max_retries_prefix @ errorMessage) tbl
            in (Returned e, tbl'))
      else (case retry_delay (job_Retries job) of
              None \<Rightarrow> (Panicked, tbl)
            | Some delay \<Rightarrow>
                (let nextRunAt = now + delay;
                     (e, tbl') = IncrementJobRetries ok (job_ID job) nextRunAt errorMessage tbl
                 in (Returned e, tbl'))))"

section \<open>Game client (internal/client/game\_client.go)\<close>

text \<open>
  What one HTTP round-trip of the client can yield, in the order the code tests it:
  \<open>http.NewRequest\<close> fails; \<open>client.Do\<close> fails (network error, timeout); the body
  cannot be read; the status and the body. A body is either not decodable as JSON or a
  \<open>GameResponse\<close>.

  In \<open>GameResponse\<close> the field \<open>resp_ErrCode\<close> holds the value \<open>parseErrCode\<close>
  computes from \<open>err_code\<close>, and \<open>resp_Msg\<close> the string \<open>messageToString\<close> computes
  from \<open>msg\<close>. \<open>resp_Data\<close> keeps the string-valued entries of \<open>data\<close>.
\<close>

record GameResponse =
  resp_Code :: int
  resp_ErrCode :: int
  resp_Msg :: string
  resp_Data :: "(string \<times> string) list"

datatype http_body = Unreadable | Undecodable | Decoded GameResponse

datatype http_exchange =
    NewRequestFailed string
  | DoFailed string
  | Responded int http_body

record GameResult =
  gr_Success :: bool
  gr_Data :: "(string \<times> string) list"
  gr_Error :: string
  gr_ErrCode :: int
  gr_IsFatal :: bool

definition GameResult0 :: GameResult where
  "GameResult0 = \<lparr>gr_Success = False, gr_Data = [], gr_Error = [], gr_ErrCode = 0, gr_IsFatal = False\<rparr>"

definition StatusOK :: int where
  "StatusOK = 200"

text \<open>The messages are Chinese text in the source; they are written in English here.\<close>

definition server_busy_text :: string where
  "server_busy_text = ''server busy''"

text \<open>The result every read, status and decoding failure returns.\<close>

definition busy_result :: GameResult where
  "busy_result = GameResult0\<lparr>gr_Error := server_busy_text, gr_ErrCode := 40101\<rparr>"

fun digits :: "nat \<Rightarrow> string" where
  "digits n = (if n < 10 then [char_of (48 + n)] else digits (n div 10) @ [char_of (48 + n mod 10)])"

declare digits.simps [simp del]

definition itoa :: "int \<Rightarrow> string" where
  "itoa i = (if i < 0 then CHR ''-'' # digits (nat (- i)) else digits (nat i))"

definition unknown_error_prefix :: string where
  "unknown_error_prefix = ''unknown error''"

definition errorMap :: "(int \<times> string) list" where
  "errorMap =
     [(20000, ''redeemed''),
      (40005, ''claim limit exceeded''),
      (40006, ''claim conditions not met''),
      (40007, ''gift code expired''),
      (40008, ''gift code already redeemed''),
      (40011, ''gift code of the same type already redeemed''),
      (40009, ''login expired''),
      (40014, ''gift code does not exist''),
      (40102, ''captcha expired''),
      (40100, ''captcha requested too often''),
      (40101, ''server busy''),
      (40103, ''captcha incorrect''),
      (40001, ''bad parameter''),
      (40002, ''bad signature'')]"

definition getErrorMessage :: "int \<Rightarrow> string" where
  "getErrorMessage errCode =
     (case map_of errorMap errCode of
        Some msg \<Rightarrow> msg
      | None \<Rightarrow> unknown_error_prefix @ '' ('' @ itoa errCode @ '')'')"

definition isFatalError :: "int \<Rightarrow> bool" where
  "isFatalError errCode = (errCode = 40007 \<or> errCode = 40014)"

definition isSuccess :: "int \<Rightarrow> bool" where
  "isSuccess errCode = (errCode = 20000)"

definition field :: "(string \<times> string) list \<Rightarrow> string \<Rightarrow> string \<times> string" where
  "field d k = (k, case map_of d k of None \<Rightarrow> [] | Some v \<Rightarrow> v)"

text \<open>
  The three calls return \<open>(*GameResult, error)\<close>: \<open>Inl\<close> is the error (only a failing
  \<open>http.NewRequest\<close> gives one), \<open>Inr\<close> the result.
\<close>

definition Login :: "http_exchange \<Rightarrow> string + GameResult" where
  "Login x =
     (case x of
        NewRequestFailed err \<Rightarrow> Inl err
      | DoFailed err \<Rightarrow> Inr (GameResult0\<lparr>gr_Error := err\<rparr>)
      | Responded status body \<Rightarrow>
          if body = Unreadable then Inr busy_result
          else if status \<noteq> StatusOK then Inr busy_result
          else (case body of
             Unreadable \<Rightarrow> Inr busy_result
           | Undecodable \<Rightarrow> Inr busy_result
           | Decoded gameResp \<Rightarrow>
               if resp_Code gameResp = 0
               then Inr (GameResult0\<lparr>gr_Success := True,
                          gr_Data := map (field (resp_Data gameResp))
                            [''fid'', ''nickname'', ''avatar_image'', ''stove_lv_content'', ''kid'']\<rparr>)
               else (let errCodeInt = resp_ErrCode gameResp;
                         errorText = getErrorMessage errCodeInt;
                         errorText = (if errorText = [] then resp_Msg gameResp else errorText);
                         errorText = (if errorText = [] then ''login failed'' else errorText)
                     in Inr (GameResult0\<lparr>gr_Error := errorText, gr_ErrCode := errCodeInt\<rparr>))))"

definition GetCaptcha :: "http_exchange \<Rightarrow> string + GameResult" where
  "GetCaptcha x =
     (case x of
        NewRequestFailed err \<Rightarrow> Inl err
      | DoFailed err \<Rightarrow> Inr (GameResult0\<lparr>gr_Error := err\<rparr>)
      | Responded status body \<Rightarrow>
          if body = Unreadable then Inr busy_result
          else if status \<noteq> StatusOK then Inr busy_result
          else (case body of
             Unreadable \<Rightarrow> Inr busy_result
           | Undecodable \<Rightarrow> Inr busy_result
           | Decoded gameResp \<Rightarrow>
               if resp_Code gameResp = 0
               then Inr (GameResult0\<lparr>gr_Success := True,
                          gr_Data := [field (resp_Data gameResp) ''img'']\<rparr>)
               else (let errCodeInt = resp_ErrCode gameResp;
                         errorText = getErrorMessage errCodeInt;
                         errorText = (if errorText = [] then resp_Msg gameResp else errorText);
                         errorText = (if errorText = [] then ''captcha request failed'' else errorText)
                     in Inr (GameResult0\<lparr>gr_Error := errorText, gr_ErrCode := errCodeInt\<rparr>))))"

definition RedeemCode :: "http_exchange \<Rightarrow> string + GameResult" where
  "RedeemCode x =
     (case x of
        NewRequestFailed err \<Rightarrow> Inl err
      | DoFailed err \<Rightarrow> Inr (GameResult0\<lparr>gr_Error := err\<rparr>)
      | Responded status body \<Rightarrow>
          if body = Unreadable then Inr busy_result
          else if status \<noteq> StatusOK then Inr busy_result
          else (case body of
             Unreadable \<Rightarrow> Inr busy_result
           | Undecodable \<Rightarrow> Inr busy_result
           | Decoded gameResp \<Rightarrow>
               (let errCodeInt = resp_ErrCode gameResp in
                     if isSuccess errCodeInt
                     then Inr (GameResult0\<lparr>gr_Success := True,
                                gr_Data := map (field (resp_Data gameResp)) [''reward'', ''message''],
                                gr_ErrCode := errCodeInt\<rparr>)
                     else (let errorText = getErrorMessage errCodeInt;
                               msgStr = resp_Msg gameResp;
                               errorText = (if take (length unknown_error_prefix) errorText = unknown_error_prefix
                                               \<and> msgStr \<noteq> []
                                            then errorText @ '' | msg: '' @ msgStr else errorText);
                               errorText = (if errorText = [] then msgStr else errorText);
                               errorText = (if errorText = [] then ''redeem failed'' else errorText)
                           in Inr (GameResult0\<lparr>gr_Error := errorText, gr_ErrCode := errCodeInt,
                                      gr_IsFatal := isFatalError errCodeInt\<rparr>)))))"

section \<open>Automation service: one attempt (tryOnceNoCooldown)\<close>

record Account =
  acc_ID :: int
  acc_FID :: string

record RedeemResult =
  rr_Success :: bool
  rr_FID :: string
  rr_GiftCode :: string
  rr_CaptchaRecognized :: string
  rr_Message :: string
  rr_Error :: string
  rr_ProcessingTime :: int
  rr_Stage :: string
  rr_ErrCode :: int
  rr_IsFatal :: bool
  rr_Attempts :: int
  rr_Reward :: string

record BatchRedeemResult =
  br_AccountID :: int
  br_FID :: string
  br_Result :: string
  br_Error :: string
  br_CaptchaRecognized :: string
  br_ProcessingTime :: int
  br_ErrCode :: int
  br_Success :: bool
  br_Skipped :: bool

text \<open>A \<open>RedeemResult\<close> literal of the source names some fields; the others are zero.\<close>

definition RedeemResult0 :: "string \<Rightarrow> string \<Rightarrow> RedeemResult" where
  "RedeemResult0 fid giftCode =
     \<lparr>rr_Success = False, rr_FID = fid, rr_GiftCode = giftCode, rr_CaptchaRecognized = [],
      rr_Message = [], rr_Error = [], rr_ProcessingTime = 0, rr_Stage = [], rr_ErrCode = 0,
      rr_IsFatal = False, rr_Attempts = 0, rr_Reward = []\<rparr>"

text \<open>
  What the outside world answers during one attempt: the three HTTP round-trips, the
  result of \<open>ocrClient.RecognizeCaptcha\<close> (\<open>Inl\<close> its error) and the whole seconds the
  attempt took.
\<close>

record attempt_env =
  env_login :: http_exchange
  env_captcha :: http_exchange
  env_ocr :: "string + string"
  env_redeem :: http_exchange
  env_elapsed :: int

definition is_alnum :: "char \<Rightarrow> bool" where
  "is_alnum r = (let n = (of_char r :: nat)
                 in (48 \<le> n \<and> n \<le> 57) \<or> (97 \<le> n \<and> n \<le> 122) \<or> (65 \<le> n \<and> n \<le> 90))"

definition to_upper :: "char \<Rightarrow> char" where
  "to_upper r = (let n = (of_char r :: nat) in if 97 \<le> n \<and> n \<le> 122 then char_of (n - 32) else r)"

text \<open>
  The loop that keeps the first four letters and digits, in upper case. The source ranges
  over runes; a rune outside ASCII is no letter or digit, and neither is any of its bytes,
  so ranging over bytes gives the same result.
\<close>

text \<open>The slice \<open>norm\<close> of the source is called \<open>nrm\<close> here.\<close>

fun normalize :: "string \<Rightarrow> string \<Rightarrow> string" where
  "normalize nrm [] = nrm"
| "normalize nrm (r # rs) =
     (if length nrm \<ge> 4 then nrm
      else if is_alnum r then normalize (nrm @ [to_upper r]) rs
      else normalize nrm rs)"

definition tryOnceNoCooldown :: "string \<Rightarrow> string \<Rightarrow> attempt_env \<Rightarrow> RedeemResult" where
  "tryOnceNoCooldown fid giftCode env =
     (let res = RedeemResult0 fid giftCode in
      case Login (env_login env) of
        Inl err \<Rightarrow> res\<lparr>rr_Error := ''login request failed'', rr_Stage := ''login_exception'',
                         rr_Attempts := 1\<rparr>
      | Inr loginResult \<Rightarrow>
      if \<not> gr_Success loginResult
      then (if gr_ErrCode loginResult = 40101
            then res\<lparr>rr_Error := gr_Error loginResult, rr_Stage := ''login'', rr_ErrCode := 40101\<rparr>
            else res\<lparr>rr_Error := gr_Error loginResult, rr_Stage := ''login'',
                     rr_ErrCode := gr_ErrCode loginResult,
                     rr_IsFatal := isFatalError (gr_ErrCode loginResult)\<rparr>)
      else
      case GetCaptcha (env_captcha env) of
        Inl err \<Rightarrow> res\<lparr>rr_Error := ''captcha request failed'', rr_Stage := ''captcha_exception'',
                         rr_ErrCode := 40101\<rparr>
      | Inr captchaResult \<Rightarrow>
      if \<not> gr_Success captchaResult
      then (if gr_ErrCode captchaResult = 40101
            then res\<lparr>rr_Error := gr_Error captchaResult, rr_Stage := ''captcha'', rr_ErrCode := 40101\<rparr>
            else if gr_ErrCode captchaResult = 40100
            then res\<lparr>rr_Error := gr_Error captchaResult, rr_Stage := ''captcha'', rr_ErrCode := 40100\<rparr>
            else res\<lparr>rr_Error := gr_Error captchaResult, rr_Stage := ''captcha'',
                     rr_ErrCode := gr_ErrCode captchaResult\<rparr>)
      else
      case env_ocr env of
        Inl err \<Rightarrow> res\<lparr>rr_Error := ''captcha recognition failed'', rr_Stage := ''ocr'',
                         rr_ErrCode := 40103\<rparr>
      | Inr captchaValue \<Rightarrow>
      if captchaValue = []
      then res\<lparr>rr_Error := ''captcha recognition failed'', rr_Stage := ''ocr'', rr_ErrCode := 40103\<rparr>
      else
      let nrm = normalize [] captchaValue in
      if length nrm \<noteq> 4
      then res\<lparr>rr_Error := ''captcha length wrong'', rr_Stage := ''ocr'', rr_ErrCode := 40103\<rparr>
      else
      case RedeemCode (env_redeem env) of
        Inl err \<Rightarrow> res\<lparr>rr_Error := ''redeem request failed'', rr_Stage := ''redeem_exception'',
                         rr_ErrCode := 40101\<rparr>
      | Inr redeemResult \<Rightarrow>
      if gr_Success redeemResult
      then res\<lparr>rr_Success := True, rr_CaptchaRecognized := nrm, rr_Message := ''redeemed'',
               rr_ProcessingTime := env_elapsed env, rr_Stage := ''completed'',
               rr_ErrCode := gr_ErrCode redeemResult, rr_Attempts := 1\<rparr>
      else if gr_ErrCode redeemResult = 40101
      then res\<lparr>rr_CaptchaRecognized := nrm, rr_Error := gr_Error redeemResult,
               rr_Stage := ''redeem'', rr_ErrCode := 40101\<rparr>
      else if gr_ErrCode redeemResult = 40102 \<or> gr_ErrCode redeemResult = 40103
      then res\<lparr>rr_CaptchaRecognized := nrm, rr_Error := gr_Error redeemResult,
               rr_Stage := ''redeem'', rr_ErrCode := gr_ErrCode redeemResult\<rparr>
      else if gr_IsFatal redeemResult
      then res\<lparr>rr_CaptchaRecognized := nrm, rr_Error := gr_Error redeemResult,
               rr_Stage := ''redeem'', rr_ErrCode := gr_ErrCode redeemResult, rr_IsFatal := True\<rparr>
      else res\<lparr>rr_CaptchaRecognized := nrm, rr_Error := gr_Error redeemResult,
               rr_Stage := ''redeem'', rr_ErrCode := gr_ErrCode redeemResult\<rparr>)"

section \<open>Automation service: the batch scheduler (RedeemBatch)\<close>

text \<open>
  The clock. \<open>time.Now()\<close> is read many times in \<open>RedeemBatch\<close>, and between two reads
  any amount of time may pass (the attempt itself, the scheduler of the runtime). The
  model keeps the time of the last read and the number of reads so far; the \<open>n\<close>-th read
  returns the previous time plus \<open>tick n\<close> nanoseconds, for a sequence \<open>tick\<close> that the
  environment chooses. \<open>time.Sleep d\<close> advances the time by \<open>d\<close> when \<open>d\<close> is positive
  (a longer sleep is a larger tick at the next read).
\<close>

record clock =
  clk_time :: time
  clk_reads :: nat

definition Now :: "(nat \<Rightarrow> nat) \<Rightarrow> clock \<Rightarrow> time \<times> clock" where
  "Now tick c =
     (let t = clk_time c + int (tick (clk_reads c))
      in (t, \<lparr>clk_time = t, clk_reads = clk_reads c + 1\<rparr>))"

definition Sleep :: "duration \<Rightarrow> clock \<Rightarrow> clock" where
  "Sleep d c = (if d \<le> 0 then c else c\<lparr>clk_time := clk_time c + d\<rparr>)"

record accountState =
  acc :: Account
  cooldowns :: int
  attemptsInCycle :: int
  nextReadyAt :: time
  finalized :: bool

text \<open>
  \<open>pickNext\<close>. The scan returns at the first account that is not finalized and whose
  \<open>nextReadyAt\<close> is not after \<open>now\<close>; otherwise it remembers the first account with the
  earliest \<open>nextReadyAt\<close>. \<open>i\<close> is the index of the head of the list, \<open>e\<close> the
  pair \<open>earliestIdx\<close>, \<open>earliestTime\<close> (\<open>None\<close> for \<open>earliestIdx == -1\<close>).
\<close>

datatype pick = Ready nat | Earliest nat time | NoneLeft

fun pickNext_scan :: "time \<Rightarrow> accountState list \<Rightarrow> nat \<Rightarrow> (nat \<times> time) option \<Rightarrow> pick" where
  "pickNext_scan now [] i e = (case e of None \<Rightarrow> NoneLeft | Some (j, t) \<Rightarrow> Earliest j t)"
| "pickNext_scan now (st # sts) i e =
     (if finalized st then pickNext_scan now sts (i + 1) e
      else if \<not> (nextReadyAt st > now) then Ready i
      else if (case e of None \<Rightarrow> True | Some (j, t) \<Rightarrow> nextReadyAt st < t)
           then pickNext_scan now sts (i + 1) (Some (i, nextReadyAt st))
           else pickNext_scan now sts (i + 1) e)"

text \<open>
  The result \<open>(idx, wait, found)\<close> of the source is \<open>Some (idx, wait)\<close> when \<open>found\<close>
  and \<open>None\<close> otherwise. \<open>time.Until\<close> reads the clock again.
\<close>

definition pickNext ::
  "(nat \<Rightarrow> nat) \<Rightarrow> time \<Rightarrow> accountState list \<Rightarrow> clock \<Rightarrow> (nat \<times> duration) option \<times> clock" where
  "pickNext tick now sts c =
     (case pickNext_scan now sts 0 None of
        Ready i \<Rightarrow> (Some (i, 0), c)
      | Earliest j t \<Rightarrow> (let (n, c') = Now tick c in (Some (j, t - n), c'))
      | NoneLeft \<Rightarrow> (None, c))"

definition mk_tmp :: "accountState \<Rightarrow> RedeemResult \<Rightarrow> int \<Rightarrow> BatchRedeemResult" where
  "mk_tmp st stepRes procSec =
     \<lparr>br_AccountID = acc_ID (acc st), br_FID = acc_FID (acc st), br_Result = ''failed'',
      br_Error = rr_Error stepRes, br_CaptchaRecognized = rr_CaptchaRecognized stepRes,
      br_ProcessingTime = procSec, br_ErrCode = rr_ErrCode stepRes,
      br_Success = rr_Success stepRes, br_Skipped = False\<rparr>"

text \<open>
  The part of the loop body after the attempt: what the outcome \<open>stepRes\<close> does to the
  account's state. The second component is what is appended to \<open>results\<close> (one result or
  none); the loop decrements \<open>pending\<close> by its length. The clock is read only in the
  branches that set \<open>nextReadyAt\<close>.
\<close>

definition settle ::
  "(nat \<Rightarrow> nat) \<Rightarrow> RedeemResult \<Rightarrow> int \<Rightarrow> accountState \<Rightarrow> clock
     \<Rightarrow> accountState \<times> BatchRedeemResult list \<times> clock" where
  "settle tick stepRes procSec st c =
     (let tmp = mk_tmp st stepRes procSec in
      if rr_Success stepRes
      then (st\<lparr>finalized := True\<rparr>, [tmp\<lparr>br_Result := ''success'', br_Error := []\<rparr>], c)
      else if rr_IsFatal stepRes
      then (st\<lparr>finalized := True\<rparr>, [tmp], c)
      else if rr_ErrCode stepRes = 40101
      then (let st = st\<lparr>cooldowns := cooldowns st + 1, attemptsInCycle := 0\<rparr> in
            if cooldowns st \<ge> 3
            then (st\<lparr>finalized := True\<rparr>, [tmp], c)
            else (let (t, c') = Now tick c in (st\<lparr>nextReadyAt := t + 60 * Second\<rparr>, [], c')))
      else if rr_ErrCode stepRes = 40102 \<or> rr_ErrCode stepRes = 40103
      then (let st = st\<lparr>attemptsInCycle := attemptsInCycle st + 1\<rparr> in
            if attemptsInCycle st \<ge> 3
            then (let st = st\<lparr>cooldowns := cooldowns st + 1, attemptsInCycle := 0\<rparr> in
                  if cooldowns st \<ge> 3
                  then (st\<lparr>finalized := True\<rparr>, [tmp], c)
                  else (let (t, c') = Now tick c in (st\<lparr>nextReadyAt := t + 60 * Second\<rparr>, [], c')))
            else (let (t, c') = Now tick c in (st\<lparr>nextReadyAt := t + 3 * Second\<rparr>, [], c')))
      else if rr_ErrCode stepRes = 40100
      then (let st = st\<lparr>attemptsInCycle := attemptsInCycle st + 1\<rparr>;
                (t, c') = Now tick c
            in (st\<lparr>nextReadyAt := t + 3 * Second\<rparr>, [], c'))
      else (st\<lparr>finalized := True\<rparr>, [tmp], c))"

text \<open>
  The variables of the loop. \<open>lastSwitchAt\<close> is \<open>None\<close> while it is the zero time;
  \<open>attempts\<close> counts the calls of \<open>tryOnceNoCooldown\<close> made so far.
\<close>

record sched =
  states :: "accountState list"
  results :: "BatchRedeemResult list"
  pending :: int
  lastSwitchAt :: "time option"
  clk :: clock
  attempts :: nat

definition minSwitchDelay :: duration where
  "minSwitchDelay = 3 * Second"

datatype 'a iter = Break | Continue 'a

text \<open>
  One pass through the body of \<open>for pending > 0\<close>. \<open>tryOnce k fid giftCode\<close> is what the
  \<open>k\<close>-th call of \<open>tryOnceNoCooldown\<close> returns.
\<close>

definition batch_iter ::
  "(nat \<Rightarrow> nat) \<Rightarrow> (nat \<Rightarrow> string \<Rightarrow> string \<Rightarrow> RedeemResult) \<Rightarrow> string \<Rightarrow> sched \<Rightarrow> sched iter" where
  "batch_iter tick tryOnce giftCode s =
     (let (now, c1) = Now tick (clk s) in
      case pickNext tick now (states s) c1 of
        (None, c2) \<Rightarrow> Break
      | (Some (idx, wait), c2) \<Rightarrow>
          if wait > 0 then Continue (s\<lparr>clk := Sleep wait c2\<rparr>)
          else
            let c3 = (case lastSwitchAt s of
                        None \<Rightarrow> c2
                      | Some l \<Rightarrow>
                          (let (t, c) = Now tick c2; since = t - l
                           in if since < minSwitchDelay then Sleep (minSwitchDelay - since) c else c));
                st = states s ! idx;
                (stepStart, c4) = Now tick c3;
                stepRes = tryOnce (attempts s) (acc_FID (acc st)) giftCode;
                (stepEnd, c5) = Now tick c4;
                procSec = (stepEnd - stepStart) div Second;
                (switched, c6) = Now tick c5;
                (st', out, c7) = settle tick stepRes procSec st c6
            in Continue (s\<lparr>states := (states s)[idx := st'],
                           results := results s @ out,
                           pending := pending s - int (length out),
                           lastSwitchAt := Some switched,
                           clk := c7,
                           attempts := attempts s + 1\<rparr>))"

text \<open>
  The loop, with fuel: \<open>None\<close> means that \<open>fuel\<close> passes through the body were not
  enough to leave it.
\<close>

fun batch_loop ::
  "(nat \<Rightarrow> nat) \<Rightarrow> (nat \<Rightarrow> string \<Rightarrow> string \<Rightarrow> RedeemResult) \<Rightarrow> string \<Rightarrow> nat \<Rightarrow> sched \<Rightarrow> sched option" where
  "batch_loop tick tryOnce giftCode fuel s =
     (if pending s > 0
      then (case fuel of
              0 \<Rightarrow> None
            | Suc n \<Rightarrow>
                (case batch_iter tick tryOnce giftCode s of
                   Break \<Rightarrow> Some s
                 | Continue s' \<Rightarrow> batch_loop tick tryOnce giftCode n s'))
      else Some s)"

declare batch_loop.simps [simp del]

text \<open>The states at the start: one clock read for each account.\<close>

fun init_states :: "(nat \<Rightarrow> nat) \<Rightarrow> Account list \<Rightarrow> clock \<Rightarrow> accountState list \<times> clock" where
  "init_states tick [] c = ([], c)"
| "init_states tick (a # as) c =
     (let (t, c') = Now tick c;
          (sts, c'') = init_states tick as c'
      in (\<lparr>acc = a, cooldowns = 0, attemptsInCycle = 0, nextReadyAt = t, finalized = False\<rparr> # sts, c''))"

definition init_sched :: "(nat \<Rightarrow> nat) \<Rightarrow> Account list \<Rightarrow> sched" where
  "init_sched tick accounts =
     (let (sts, c) = init_states tick accounts \<lparr>clk_time = 0, clk_reads = 0\<rparr>
      in \<lparr>states = sts, results = [], pending = int (length sts), lastSwitchAt = None,
          clk = c, attempts = 0\<rparr>)"

definition RedeemBatch ::
  "(nat \<Rightarrow> nat) \<Rightarrow> (nat \<Rightarrow> string \<Rightarrow> string \<Rightarrow> RedeemResult) \<Rightarrow> nat \<Rightarrow> Account list \<Rightarrow> string
     \<Rightarrow> BatchRedeemResult list option" where
  "RedeemBatch tick tryOnce fuel accounts giftCode =
     map_option results (batch_loop tick tryOnce giftCode fuel (init_sched tick accounts))"

section \<open>Redeem log repository (ReplaceRedeemLog)\<close>

text \<open>
  A row of \<open>redeem_logs\<close> with the columns the statements write (\<open>nickname\<close> and
  \<open>redeemed_at\<close> take their defaults and are left out). The table is the list of its
  rows.
\<close>

record RedeemLog =
  log_ID :: int
  log_RedeemCodeID :: int
  log_GameAccountID :: int
  log_FID :: string
  log_Code :: string
  log_Result :: string
  log_ErrorMessage :: "string option"
  log_SuccessMessage :: "string option"
  log_CaptchaRecognized :: "string option"
  log_ProcessingTime :: "int option"
  log_ErrCode :: "int option"

text \<open>
  What the database does during one call: the first statement that fails, if any, and the
  id it gives to the inserted row.
\<close>

datatype tx_fault = NoFault | BeginFails | DeleteFails | InsertFails | CommitFails | LastInsertIdFails

record db_env =
  env_fault :: tx_fault
  env_insert_id :: int

datatype sql_error = SqlError tx_fault

definition same_pair :: "int \<Rightarrow> int \<Rightarrow> RedeemLog \<Rightarrow> bool" where
  "same_pair redeemCodeID gameAccountID row =
     (log_RedeemCodeID row = redeemCodeID \<and> log_GameAccountID row = gameAccountID)"

text \<open>
  \<open>ReplaceRedeemLog\<close>: begin, delete, insert, commit, with \<open>defer tx.Rollback()\<close>. A
  failure before the commit leaves the table as it was; the arguments are passed as the
  row to insert (its \<open>log_ID\<close> is ignored and set by the database).
\<close>

definition ReplaceRedeemLog :: "db_env \<Rightarrow> RedeemLog \<Rightarrow> RedeemLog list \<Rightarrow> (sql_error + int) \<times> RedeemLog list" where
  "ReplaceRedeemLog env args tbl =
     (if env_fault env = BeginFails then (Inl (SqlError BeginFails), tbl)
      else if env_fault env = DeleteFails then (Inl (SqlError DeleteFails), tbl)
      else let deleted = filter (\<lambda>row. \<not> same_pair (log_RedeemCodeID args) (log_GameAccountID args) row) tbl in
      if env_fault env = InsertFails then (Inl (SqlError InsertFails), tbl)
      else let inserted = deleted @ [args\<lparr>log_ID := env_insert_id env\<rparr>] in
      if env_fault env = CommitFails then (Inl (SqlError CommitFails), tbl)
      else if env_fault env = LastInsertIdFails then (Inl (SqlError LastInsertIdFails), inserted)
      else (Inr (env_insert_id env), inserted))"

section \<open>OCR key manager (internal/client/ocr\_manager.go)\<close>

text \<open>\<open>model.OCRKey\<close>, with the fields \<open>Reload\<close> and \<open>pick\<close> read.\<close>

record OCRKey =
  key_ID :: int
  key_Provider :: string
  key_IsActive :: bool
  key_HasQuota :: bool
  key_MonthlyQuota :: int
  key_RemainingQuota :: int
  key_Weight :: int

text \<open>
  \<open>weightedKey\<close>. The recognizer is what the provider's factory builds from the key and
  is left out.
\<close>

record weightedKey =
  wk_key :: OCRKey
  wk_current :: int

record OCRKeyManager =
  keys :: "weightedKey list"
  total :: int

text \<open>
  \<open>strings.TrimSpace\<close> and \<open>strings.ToLower\<close> are functions of Go's standard
  library: the first removes leading and trailing Unicode white space, the second maps
  every letter to its lower case by the case tables of Unicode. They are parameters of the
  model, held in a record; what is proved below holds for every pair of functions.
\<close>

record strings_pkg =
  TrimSpace :: "string \<Rightarrow> string"
  ToLower :: "string \<Rightarrow> string"

text \<open>
  The registry \<open>providerFactories\<close> is the list of the names registered so far (each
  stored trimmed and in lower case by \<open>RegisterOCRProvider\<close>); \<open>getOCRProvider\<close> says
  whether a name has a factory.
\<close>

definition getOCRProvider :: "strings_pkg \<Rightarrow> string list \<Rightarrow> string \<Rightarrow> bool" where
  "getOCRProvider strings providerFactories name =
     (ToLower strings (TrimSpace strings name) \<in> set providerFactories)"

definition provider_of :: "strings_pkg \<Rightarrow> OCRKey \<Rightarrow> string" where
  "provider_of strings k = (let provider = ToLower strings (TrimSpace strings (key_Provider k))
                            in if provider = [] then ''baidu'' else provider)"

text \<open>
  Go's \<open>float64\<close> is the IEEE 754 binary64 format, and every operation on it returns the
  exact result rounded to the nearest representable number, ties going to the even
  significand. A \<open>float64\<close> value is modelled by the real number it stands for, and
  \<open>float64 x\<close> is the rounding of the real number \<open>x\<close>: \<open>binade x\<close> is the exponent
  \<open>e\<close> with \<open>2^e \<le> x < 2^(e+1)\<close>, the significand \<open>x / 2^(e-52)\<close> is rounded to an
  integer by \<open>rne\<close>, and the result is that integer times \<open>2^(e-52)\<close>. Overflow to
  infinity and the subnormal numbers are not modelled: the operands below are 64-bit
  integers, so every value that is rounded is 0 or has a magnitude between \<open>2^-63\<close> and
  \<open>2^65\<close>, where \<open>float64\<close> has its full precision of 53 bits.
\<close>

definition pow2 :: "int \<Rightarrow> real" where
  "pow2 k = (if 0 \<le> k then 2 ^ nat k else 1 / 2 ^ nat (- k))"

definition rne :: "real \<Rightarrow> int" where
  "rne x = (let f = \<lfloor>x\<rfloor>; d = x - of_int f
            in if d < 1 / 2 then f else if 1 / 2 < d then f + 1 else if even f then f else f + 1)"

definition binade :: "real \<Rightarrow> int" where
  "binade x = (if 1 \<le> x then bitlen \<lfloor>x\<rfloor> - 1 else - bitlen (\<lceil>1 / x\<rceil> - 1))"

definition float64 :: "real \<Rightarrow> real" where
  "float64 x = (if x = 0 then 0
                else let a = \<bar>x\<bar>; e = binade a; m = rne (a * pow2 (52 - e))
                     in sgn x * of_int m * pow2 (e - 52))"

text \<open>
  The effective weight:
  \<^verbatim>\<open>eff := 1.0 + float64(k.RemainingQuota)/float64(k.MonthlyQuota)
  if eff > 2.0 { eff = 2.0 }
  effWeight = int(float64(effWeight) * eff)\<close>
  Each conversion to \<open>float64\<close>, the division, the addition and the multiplication round;
  \<open>int(x)\<close> truncates towards zero (the product is in the range of \<open>int\<close> for
  every weight below \<open>2^62\<close>).
\<close>

definition trunc :: "real \<Rightarrow> int" where
  "trunc x = (if x \<ge> 0 then \<lfloor>x\<rfloor> else \<lceil>x\<rceil>)"

definition effWeight :: "OCRKey \<Rightarrow> int" where
  "effWeight k =
     (if key_MonthlyQuota k > 0 \<and> key_RemainingQuota k \<ge> 0
      then (let eff = float64 (1 + float64 (float64 (of_int (key_RemainingQuota k))
                                             / float64 (of_int (key_MonthlyQuota k))));
                eff = (if eff > 2 then 2 else eff);
                w = trunc (float64 (float64 (of_int (key_Weight k)) * eff))
            in if w < 1 then 1 else w)
      else key_Weight k)"

text \<open>
  The loop of \<open>Reload\<close> over the fetched keys, with the list and the total built so far.
  \<open>total\<close> is an \<open>int\<close> of 64 bits in the source and an integer here, which is the
  same as long as the effective weights sum to less than \<open>2^63\<close>.
\<close>

fun Reload_loop ::
  "strings_pkg \<Rightarrow> string list \<Rightarrow> OCRKey list \<Rightarrow> weightedKey list \<times> int \<Rightarrow> weightedKey list \<times> int" where
  "Reload_loop strings reg [] (ks, tot) = (ks, tot)"
| "Reload_loop strings reg (k # rest) (ks, tot) =
     (if \<not> key_IsActive k \<or> \<not> key_HasQuota k \<or> key_Weight k \<le> 0
      then Reload_loop strings reg rest (ks, tot)
      else if getOCRProvider strings reg (provider_of strings k)
      then Reload_loop strings reg rest (ks @ [\<lparr>wk_key = k, wk_current = 0\<rparr>], tot + effWeight k)
      else Reload_loop strings reg rest (ks, tot))"

definition Reload :: "strings_pkg \<Rightarrow> string list \<Rightarrow> OCRKey list \<Rightarrow> OCRKeyManager \<Rightarrow> OCRKeyManager" where
  "Reload strings reg ks m =
     (let (ks', tot) = Reload_loop strings reg ks ([], 0) in m\<lparr>keys := ks', total := tot\<rparr>)"

text \<open>
  The loop of \<open>pick\<close>: every key's \<open>current\<close> grows by \<open>wk.key.Weight\<close>
  (\<open>bump\<close>), and \<open>best\<close> (here the index and the \<open>current\<close> of the best key so
  far) changes when a key's new \<open>current\<close> is larger.
\<close>

definition bump :: "weightedKey \<Rightarrow> weightedKey" where
  "bump wk = wk\<lparr>wk_current := wk_current wk + key_Weight (wk_key wk)\<rparr>"

fun pick_loop :: "weightedKey list \<Rightarrow> nat \<Rightarrow> (nat \<times> int) option \<Rightarrow> weightedKey list \<times> (nat \<times> int) option" where
  "pick_loop [] i best = ([], best)"
| "pick_loop (wk # wks) i best =
     (let wk' = bump wk;
          best' = (case best of
                     None \<Rightarrow> Some (i, wk_current wk')
                   | Some (j, c) \<Rightarrow> if wk_current wk' > c then Some (i, wk_current wk') else best);
          (rest, b) = pick_loop wks (i + 1) best'
      in (wk' # rest, b))"

definition pick :: "OCRKeyManager \<Rightarrow> nat option \<times> OCRKeyManager" where
  "pick m =
     (if keys m = [] then (None, m)
      else (case pick_loop (keys m) 0 None of
              (ks, None) \<Rightarrow> (None, m\<lparr>keys := ks\<rparr>)
            | (ks, Some (i, c)) \<Rightarrow>
                (Some i, m\<lparr>keys := ks[i := (ks ! i)\<lparr>wk_current := wk_current (ks ! i) - total m\<rparr>]\<rparr>)))"

text \<open>The keys that \<open>Reload\<close> retains.\<close>

definition usable :: "strings_pkg \<Rightarrow> string list \<Rightarrow> OCRKey \<Rightarrow> bool" where
  "usable strings reg k =
     (key_IsActive k \<and> key_HasQuota k \<and> key_Weight k > 0 \<and>
      getOCRProvider strings reg (provider_of strings k))"

section \<open>The account gate (accountRedeemGate)\<close>

text \<open>
  The gate is a channel of capacity 1; \<open>full\<close> says whether it holds its one item.
  \<open>acquireAccountGate\<close> sends to the channel, which blocks (\<open>None\<close>) while the channel
  is full. \<open>releaseAccountGate\<close> receives without blocking: it takes the item if there is
  one, and the channel is empty afterwards in either case.
\<close>

definition acquireAccountGate :: "bool \<Rightarrow> bool option" where
  "acquireAccountGate full = (if full then None else Some True)"

definition releaseAccountGate :: "bool \<Rightarrow> bool" where
  "releaseAccountGate full = False"

text \<open>
  The flows that talk to the game API, seen from the gate. \<open>RedeemSingle\<close> begins with
  \<open>acquireAccountGate()\<close> and \<open>defer releaseAccountGate()\<close>, so it holds the gate from
  its first request to its return. \<open>RedeemBatch\<close> and \<open>tryOnceNoCooldown\<close> contain no
  call of either function. A flow is in flight between its entry and its return.
\<close>

datatype flow = RedeemSingleFlow | RedeemBatchFlow

datatype phase = NotStarted | InFlight | Finished

record proc =
  p_flow :: flow
  p_phase :: phase

record system =
  gate_full :: bool
  procs :: "proc list"

definition enter :: "flow \<Rightarrow> bool \<Rightarrow> bool option" where
  "enter f full = (case f of RedeemSingleFlow \<Rightarrow> acquireAccountGate full | RedeemBatchFlow \<Rightarrow> Some full)"

definition leave :: "flow \<Rightarrow> bool \<Rightarrow> bool" where
  "leave f full = (case f of RedeemSingleFlow \<Rightarrow> releaseAccountGate full | RedeemBatchFlow \<Rightarrow> full)"

text \<open>
  Concurrent flows are interleaved: an event is one flow entering or returning. A step
  that is not possible (the flow is not in the phase for it, or it is blocked at the
  gate) is \<open>None\<close>.
\<close>

datatype event = Enter nat | Leave nat

definition step :: "event \<Rightarrow> system \<Rightarrow> system option" where
  "step e s =
     (case e of
        Enter i \<Rightarrow>
          if i < length (procs s) \<and> p_phase (procs s ! i) = NotStarted
          then (case enter (p_flow (procs s ! i)) (gate_full s) of
                  None \<Rightarrow> None
                | Some g \<Rightarrow> Some \<lparr>gate_full = g,
                                   procs = (procs s)[i := (procs s ! i)\<lparr>p_phase := InFlight\<rparr>]\<rparr>)
          else None
      | Leave i \<Rightarrow>
          if i < length (procs s) \<and> p_phase (procs s ! i) = InFlight
          then Some \<lparr>gate_full = leave (p_flow (procs s ! i)) (gate_full s),
                     procs = (procs s)[i := (procs s ! i)\<lparr>p_phase := Finished\<rparr>]\<rparr>
          else None)"

fun run :: "event list \<Rightarrow> system \<Rightarrow> system option" where
  "run [] s = Some s"
| "run (e # es) s = (case step e s of None \<Rightarrow> None | Some s' \<Rightarrow> run es s')"

definition start :: "flow list \<Rightarrow> system" where
  "start fs = \<lparr>gate_full = False, procs = map (\<lambda>f. \<lparr>p_flow = f, p_phase = NotStarted\<rparr>) fs\<rparr>"

definition in_flight :: "system \<Rightarrow> nat" where
  "in_flight s = length (filter (\<lambda>p. p_phase p = InFlight) (procs s))"

section \<open>Auxiliary definitions for the proofs\<close>

text \<open>
  A result and an account are compared by account id and FID. The invariant of the
  scheduler's loop: the states are those of the input accounts, \<open>pending\<close> counts the
  states that are not finalized, and the results are those of the finalized states.
\<close>

definition br_key :: "BatchRedeemResult \<Rightarrow> int \<times> string" where
  "br_key r = (br_AccountID r, br_FID r)"

definition acc_key :: "Account \<Rightarrow> int \<times> string" where
  "acc_key a = (acc_ID a, acc_FID a)"

definition sched_inv :: "Account list \<Rightarrow> sched \<Rightarrow> bool" where
  "sched_inv accounts s =
     (map acc (states s) = accounts \<and>
      pending s = int (length (filter (\<lambda>st. \<not> finalized st) (states s))) \<and>
      mset (map br_key (results s)) = mset (map (\<lambda>st. acc_key (acc st)) (filter finalized (states s))))"

definition all_pending :: "sched \<Rightarrow> bool" where
  "all_pending s = (states s \<noteq> [] \<and> list_all (\<lambda>st. \<not> finalized st) (states s) \<and>
                    pending s = int (length (states s)))"

text \<open>
  The attempts an account has left when code 40100 does not occur (three cooldowns of
  three attempts each), and the bound on the remaining passes through the loop that
  follows from them.
\<close>

definition budget :: "accountState \<Rightarrow> nat" where
  "budget st = (if finalized st then 0 else nat (9 - 3 * cooldowns st - attemptsInCycle st))"

definition in_budget :: "accountState \<Rightarrow> bool" where
  "in_budget st = (finalized st \<or> (0 \<le> cooldowns st \<and> cooldowns st < 3 \<and>
                                     0 \<le> attemptsInCycle st \<and> attemptsInCycle st < 3))"

definition ready_now :: "sched \<Rightarrow> bool" where
  "ready_now s = list_ex (\<lambda>st. \<not> finalized st \<and> nextReadyAt st \<le> clk_time (clk s)) (states s)"

definition passes_left :: "sched \<Rightarrow> nat" where
  "passes_left s = 2 * sum_list (map budget (states s)) + (if ready_now s then 0 else 1)"

text \<open>
  The invariants of the scheduler's loop when every attempt returns code 40101, and when
  every attempt returns a fatal code: the attempts made so far are counted by the
  cooldowns of the accounts in the first case and by the finalized accounts in the second.
\<close>

definition busy_inv :: "sched \<Rightarrow> bool" where
  "busy_inv s =
     (list_all (\<lambda>st. attemptsInCycle st = 0 \<and> 0 \<le> cooldowns st \<and> cooldowns st \<le> 3 \<and>
                      (finalized st \<longleftrightarrow> cooldowns st = 3)) (states s) \<and>
      int (attempts s) = sum_list (map cooldowns (states s)) \<and>
      list_all (\<lambda>b. br_Result b = ''failed'' \<and> br_ErrCode b = 40101) (results s))"

definition fatal_inv :: "sched \<Rightarrow> bool" where
  "fatal_inv s =
     (list_all (\<lambda>st. attemptsInCycle st = 0 \<and> cooldowns st = 0) (states s) \<and>
      attempts s = length (filter finalized (states s)) \<and>
      list_all (\<lambda>b. br_Result b = ''failed'' \<and> isFatalError (br_ErrCode b)) (results s))"

text \<open>The invariant of the gate when every flow is a \<open>RedeemSingle\<close>.\<close>

definition gate_inv :: "system \<Rightarrow> bool" where
  "gate_inv s = (list_all (\<lambda>p. p_flow p = RedeemSingleFlow) (procs s) \<and>
                 in_flight s = (if gate_full s then 1 else 0))"

section \<open>Example inputs\<close>

text \<open>
  Concrete answers of the game API, accounts, scheduling states, log rows and OCR keys, on
  which the definitions are run.
\<close>

definition ok_login :: http_exchange where
  "ok_login = Responded 200 (Decoded \<lparr>resp_Code = 0, resp_ErrCode = 0, resp_Msg = [], resp_Data = []\<rparr>)"

definition ok_captcha :: http_exchange where
  "ok_captcha = Responded 200 (Decoded \<lparr>resp_Code = 0, resp_ErrCode = 0, resp_Msg = [],
                                          resp_Data = [(''img'', ''aGk='')]\<rparr>)"

definition api_error :: "int \<Rightarrow> http_exchange" where
  "api_error code = Responded 200 (Decoded \<lparr>resp_Code = 1, resp_ErrCode = code, resp_Msg = [], resp_Data = []\<rparr>)"

definition captcha_too_often :: attempt_env where
  "captcha_too_often = \<lparr>env_login = ok_login, env_captcha = api_error 40100, env_ocr = Inr ''ab12'',
                          env_redeem = api_error 40100, env_elapsed = 0\<rparr>"

definition redeem_ok :: http_exchange where
  "redeem_ok = Responded 200 (Decoded \<lparr>resp_Code = 0, resp_ErrCode = 20000, resp_Msg = [],
                                         resp_Data = [(''reward'', ''gems'')]\<rparr>)"

definition scenario :: "nat \<Rightarrow> attempt_env" where
  "scenario k = \<lparr>env_login = ok_login, env_captcha = ok_captcha, env_ocr = Inr ''ab12'',
                  env_redeem = (if k = 1 \<or> k = 2 then api_error 40103 else redeem_ok),
                  env_elapsed = 1\<rparr>"

definition redeem_answers :: "int \<Rightarrow> attempt_env" where
  "redeem_answers code = \<lparr>env_login = ok_login, env_captcha = ok_captcha, env_ocr = Inr ''ab12'',
                  env_redeem = api_error code, env_elapsed = 1\<rparr>"

definition account1 :: Account where "account1 = \<lparr>acc_ID = 1, acc_FID = ''1001''\<rparr>"

definition account2 :: Account where "account2 = \<lparr>acc_ID = 2, acc_FID = ''1002''\<rparr>"

definition state_of :: "int \<Rightarrow> int \<Rightarrow> time \<Rightarrow> bool \<Rightarrow> accountState" where
  "state_of c a t f = \<lparr>acc = account1, cooldowns = c, attemptsInCycle = a, nextReadyAt = t, finalized = f\<rparr>"

definition clock0 :: clock where "clock0 = \<lparr>clk_time = 0, clk_reads = 0\<rparr>"

definition clock1 :: clock where "clock1 = \<lparr>clk_time = 0, clk_reads = 1\<rparr>"

definition log1 :: RedeemLog where
  "log1 = \<lparr>log_ID = 0, log_RedeemCodeID = 7, log_GameAccountID = 1, log_FID = ''1001'',
           log_Code = ''ABC123'', log_Result = ''failed'', log_ErrorMessage = Some ''captcha incorrect'',
           log_SuccessMessage = None, log_CaptchaRecognized = Some ''AB12'',
           log_ProcessingTime = Some 2, log_ErrCode = Some 40103\<rparr>"

definition log2 :: RedeemLog where
  "log2 = \<lparr>log_ID = 0, log_RedeemCodeID = 7, log_GameAccountID = 1, log_FID = ''1001'',
           log_Code = ''ABC123'', log_Result = ''success'', log_ErrorMessage = None,
           log_SuccessMessage = Some ''redeemed'', log_CaptchaRecognized = Some ''CD34'',
           log_ProcessingTime = Some 1, log_ErrCode = Some 20000\<rparr>"

definition other_log :: RedeemLog where
  "other_log = log1\<lparr>log_ID := 3, log_GameAccountID := 2, log_FID := ''1002''\<rparr>"

definition key1 :: OCRKey where
  "key1 = \<lparr>key_ID = 1, key_Provider = '' Baidu'', key_IsActive = True, key_HasQuota = True,
           key_MonthlyQuota = 1000, key_RemainingQuota = 500, key_Weight = 3\<rparr>"

definition key2 :: OCRKey where
  "key2 = \<lparr>key_ID = 2, key_Provider = ''aliyun'', key_IsActive = True, key_HasQuota = True,
           key_MonthlyQuota = 1000, key_RemainingQuota = 1000, key_Weight = 1\<rparr>"

definition key3 :: OCRKey where
  "key3 = \<lparr>key_ID = 3, key_Provider = ''baidu'', key_IsActive = True, key_HasQuota = True,
           key_MonthlyQuota = 3000, key_RemainingQuota = 2000, key_Weight = 9\<rparr>"

definition manager0 :: OCRKeyManager where
  "manager0 = \<lparr>keys = [], total = 0\<rparr>"

text \<open>
  The provider names of these keys are ASCII strings. On an ASCII string
  \<open>strings.TrimSpace\<close> removes the leading and trailing characters among tab, line feed,
  vertical tab, form feed, carriage return and space, and \<open>strings.ToLower\<close> replaces the
  letters A to Z by a to z; \<open>ascii_strings\<close> holds these two functions.
\<close>

definition ascii_space :: "char \<Rightarrow> bool" where
  "ascii_space c = (let n = (of_char c :: nat) in (9 \<le> n \<and> n \<le> 13) \<or> n = 32)"

definition ascii_TrimSpace :: "string \<Rightarrow> string" where
  "ascii_TrimSpace s = rev (dropWhile ascii_space (rev (dropWhile ascii_space s)))"

definition ascii_ToLower :: "string \<Rightarrow> string" where
  "ascii_ToLower s =
     map (\<lambda>c. let n = (of_char c :: nat) in if 65 \<le> n \<and> n \<le> 90 then char_of (n + 32) else c) s"

definition ascii_strings :: strings_pkg where
  "ascii_strings = \<lparr>TrimSpace = ascii_TrimSpace, ToLower = ascii_ToLower\<rparr>"

text \<open>Jobs and rows of the job table.\<close>

definition job_a :: Job where
  "job_a = \<lparr>job_ID = 1, job_Type = ''redeem'', job_Retries = 2, job_MaxRetries = 3\<rparr>"

definition job_b :: Job where
  "job_b = \<lparr>job_ID = 1, job_Type = ''redeem'', job_Retries = 3, job_MaxRetries = 3\<rparr>"

definition row_of :: "string \<Rightarrow> int \<Rightarrow> time \<Rightarrow> string option \<Rightarrow> job_row" where
  "row_of status retries t msg =
     \<lparr>row_id = 1, row_type = ''redeem'', row_status = status, row_retries = retries,
      row_max_retries = 3, row_next_run_at = t, row_error_message = msg\<rparr>"

text \<open>
  A state of the scheduler in which the first account is finalized and the second is
  ready, and the results of an account whose last attempt returned code 40101 or 40007.
\<close>

definition sched1 :: sched where
  "sched1 = \<lparr>states = [state_of 3 0 0 True, state_of 1 0 0 False], results = [], pending = 1,
             lastSwitchAt = None, clk = clock0, attempts = 0\<rparr>"

definition busy_result_of :: "Account \<Rightarrow> BatchRedeemResult" where
  "busy_result_of a = \<lparr>br_AccountID = acc_ID a, br_FID = acc_FID a, br_Result = ''failed'',
      br_Error = ''server busy'', br_CaptchaRecognized = ''AB12'', br_ProcessingTime = 0,
      br_ErrCode = 40101, br_Success = False, br_Skipped = False\<rparr>"

definition expired_result_of :: "Account \<Rightarrow> BatchRedeemResult" where
  "expired_result_of a = \<lparr>br_AccountID = acc_ID a, br_FID = acc_FID a, br_Result = ''failed'',
      br_Error = ''gift code expired'', br_CaptchaRecognized = ''AB12'', br_ProcessingTime = 0,
      br_ErrCode = 40007, br_Success = False, br_Skipped = False\<rparr>"

section \<open>Properties of the job queue\<close>

lemma wrap64_id: "- (2 ^ 63) \<le> x \<Longrightarrow> x < 2 ^ 63 \<Longrightarrow> wrap64 x = x"
  unfolding wrap64_def by (simp add: mod_pos_pos_trivial)

lemma pow2_le_33: "n \<le> 33 \<Longrightarrow> (2::int) ^ n \<le> 2 ^ 33"
  by (rule power_increasing) simp_all

lemma wrap64_small:
  assumes "0 < p" "p \<le> 2 ^ 33"
  shows "wrap64 p = p" "wrap64 (p * Second) = p * Second"
proof -
  show "wrap64 p = p"
    using assms by (intro wrap64_id) simp_all
  show "wrap64 (p * Second) = p * Second"
    using assms by (intro wrap64_id) (simp_all add: Second_def)
qed

lemma retry_delay_in_range:
  assumes "0 \<le> r" "r \<le> 33"
  shows "retry_delay r = Some (min (2 ^ nat r * Second) (60 * Second))"
proof -
  have le: "(2::int) ^ nat r \<le> 2 ^ 33" using assms by (intro pow2_le_33) simp
  have pos: "(0::int) < 2 ^ nat r" by simp
  note w = wrap64_small [OF pos le]
  show ?thesis
    using assms w by (simp add: retry_delay_def shl64_def mul64_def Let_def min_def)
qed

lemma retry_delay_mono:
  assumes "0 \<le> r" "r \<le> s" "s \<le> 33"
  shows "the (retry_delay r) \<le> the (retry_delay s)"
proof -
  have "(2::int) ^ nat r \<le> 2 ^ nat s"
    using assms by (intro power_increasing) simp_all
  then have "(2::int) ^ nat r * Second \<le> 2 ^ nat s * Second"
    by (simp add: Second_def)
  then show ?thesis
    using assms by (simp add: retry_delay_in_range min_def)
qed

lemma RetryJob_in_range:
  assumes "job_Retries job < job_MaxRetries job" "0 \<le> job_Retries job" "job_Retries job \<le> 33"
  shows "RetryJob True now job msg tbl =
           (Returned None,
            map (\<lambda>r. if row_id r = job_ID job
                      then r\<lparr>row_retries := row_retries r + 1,
                            row_next_run_at := now + min (2 ^ nat (job_Retries job) * Second) (60 * Second),
                            row_error_message := Some msg,
                            row_status := ''pending''\<rparr>
                      else r) tbl)"
  using assms by (simp add: RetryJob_def retry_delay_in_range IncrementJobRetries_def)

lemma RetryJob_exhausted:
  assumes "job_Retries job \<ge> job_MaxRetries job"
  shows "RetryJob True now job msg tbl =
           (Returned None,
            map (\<lambda>r. if row_id r = job_ID job
                      then r\<lparr>row_status := ''failed'',
                            row_error_message := Some (max_retries_prefix @ msg)\<rparr>
                      else r) tbl)"
  using assms by (simp add: RetryJob_def MarkJobFailed_def UpdateJobStatus_def)

text \<open>
  C7. A job that \<open>RetryJob\<close> receives was created by one of the three submit functions of
  the worker's manager, with \<open>max_retries\<close> 3, 3 or 2 and \<open>retries\<close> 0, and \<open>retries\<close>
  grows only by the increment below, which happens while \<open>retries < max_retries\<close>; so it
  has \<open>0 \<le> retries \<le> 3\<close>. The theorem covers every job with \<open>0 \<le> retries \<le> 33\<close>.
  When \<open>retries < max_retries\<close>, the delay is \<open>min(2^retries seconds, 60 seconds)\<close>, and
  the row of the job gets \<open>retries + 1\<close>, \<open>next_run_at = now + delay\<close>, the status
  \<open>pending\<close> and the error message. The delay does not decrease when \<open>retries\<close> grows,
  and it never exceeds 60 seconds. When \<open>retries \<ge> max_retries\<close>, the row is marked
  \<open>failed\<close>, with the error message behind the prefix. When the \<open>UPDATE\<close> itself fails,
  the error is returned and the table is left as it was.
\<close>

theorem C7_RetryJob_backoff:
  "(0 \<le> job_Retries job \<and> job_Retries job \<le> 33 \<and> job_Retries job < job_MaxRetries job \<longrightarrow>
      retry_delay (job_Retries job) = Some (min (2 ^ nat (job_Retries job) * Second) (60 * Second)) \<and>
      RetryJob True now job msg tbl =
        (Returned None,
         map (\<lambda>r. if row_id r = job_ID job
                   then r\<lparr>row_retries := row_retries r + 1,
                         row_next_run_at := now + min (2 ^ nat (job_Retries job) * Second) (60 * Second),
                         row_error_message := Some msg,
                         row_status := ''pending''\<rparr>
                   else r) tbl) \<and>
      RetryJob False now job msg tbl = (Returned (Some ExecFailed), tbl)) \<and>
   (0 \<le> r \<and> r \<le> r' \<and> r' \<le> 33 \<longrightarrow>
      the (retry_delay r) \<le> the (retry_delay r') \<and> the (retry_delay r') \<le> 60 * Second) \<and>
   (job_MaxRetries job' \<le> job_Retries job' \<longrightarrow>
      RetryJob True now job' msg tbl =
        (Returned None,
         map (\<lambda>r. if row_id r = job_ID job'
                   then r\<lparr>row_status := ''failed'',
                         row_error_message := Some (max_retries_prefix @ msg)\<rparr>
                   else r) tbl) \<and>
      RetryJob False now job' msg tbl = (Returned (Some ExecFailed), tbl))"
proof -
  have a: "retry_delay (job_Retries job) = Some (min (2 ^ nat (job_Retries job) * Second) (60 * Second))"
    if "0 \<le> job_Retries job" "job_Retries job \<le> 33"
    using that by (rule retry_delay_in_range)
  have b: "RetryJob False now job msg tbl = (Returned (Some ExecFailed), tbl)"
    if "0 \<le> job_Retries job" "job_Retries job \<le> 33" "job_Retries job < job_MaxRetries job"
    using that by (simp add: RetryJob_def retry_delay_in_range IncrementJobRetries_def)
  have c: "the (retry_delay r') \<le> 60 * Second" if "0 \<le> r" "r \<le> r'" "r' \<le> 33"
    using that by (simp add: retry_delay_in_range)
  have d: "RetryJob False now job' msg tbl = (Returned (Some ExecFailed), tbl)"
    if "job_MaxRetries job' \<le> job_Retries job'"
    using that by (simp add: RetryJob_def MarkJobFailed_def UpdateJobStatus_def)
  have e: "the (retry_delay r) \<le> the (retry_delay r')" if "0 \<le> r" "r \<le> r'" "r' \<le> 33"
    using that by (rule retry_delay_mono)
  note f = RetryJob_in_range [of job now msg tbl] and g = RetryJob_exhausted [of job' now msg tbl]
  show ?thesis
    by (intro conjI impI; (elim conjE)?; (rule a b c d e f g; assumption))
qed

theorem C7_RetryJob_backoff_witness:
  "retry_delay 2 = Some (4 * Second) \<and>
   RetryJob True 100 job_a ''e'' [row_of ''processing'' 2 0 None]
     = (Returned None, [row_of ''pending'' 3 (100 + 4 * Second) (Some ''e'')]) \<and>
   the (retry_delay 0) \<le> the (retry_delay 2) \<and>
   RetryJob True 100 job_b ''e'' [row_of ''processing'' 3 0 None]
     = (Returned None, [row_of ''failed'' 3 0 (Some (max_retries_prefix @ ''e''))])"
  using C7_RetryJob_backoff [where job = job_a and r = 0 and r' = 2 and job' = job_b and now = 100
      and msg = "''e''" and tbl = "[row_of ''processing'' 2 0 None]"]
    C7_RetryJob_backoff [where job = job_a and r = 0 and r' = 2 and job' = job_b and now = 100
      and msg = "''e''" and tbl = "[row_of ''processing'' 3 0 None]"]
  by (simp add: job_a_def job_b_def row_of_def Second_def)

text \<open>
  The bound 33 on \<open>retries\<close> is where the 64-bit arithmetic of the delay stops being
  exact: at \<open>retries = 34\<close> the product \<open>2^34 * 10^9\<close> wraps to a negative duration.
  No job of this system gets there, since \<open>max_retries\<close> is at most 3.
\<close>

lemma RetryJob_delay_wraps:
  "RetryJob True 0 \<lparr>job_ID = 1, job_Type = ''redeem'', job_Retries = 34, job_MaxRetries = 35\<rparr> ''e''
     [\<lparr>row_id = 1, row_type = ''redeem'', row_status = ''processing'', row_retries = 34,
       row_max_retries = 35, row_next_run_at = 0, row_error_message = None\<rparr>]
   = (Returned None,
      [\<lparr>row_id = 1, row_type = ''redeem'', row_status = ''pending'', row_retries = 35,
        row_max_retries = 35, row_next_run_at = - 1266874889709551616,
        row_error_message = Some ''e''\<rparr>])"
  by (simp add: RetryJob_def retry_delay_def shl64_def mul64_def wrap64_def Second_def
      IncrementJobRetries_def)

section \<open>Properties of the game client and the scheduler\<close>

lemma RedeemCode_classified:
  "RedeemCode x = Inr g \<Longrightarrow>
     gr_IsFatal g = isFatalError (gr_ErrCode g) \<and> gr_Success g = isSuccess (gr_ErrCode g)"
  by (auto simp: RedeemCode_def busy_result_def GameResult0_def isFatalError_def isSuccess_def
      Let_def split: http_exchange.splits http_body.splits if_splits)

lemma tryOnce_classified:
  assumes "r = tryOnceNoCooldown fid giftCode env"
  shows "(rr_Success r \<longrightarrow> rr_ErrCode r = 20000) \<and> (rr_IsFatal r \<longrightarrow> isFatalError (rr_ErrCode r))"
proof (cases "RedeemCode (env_redeem env)")
  case (Inl e)
  then show ?thesis
    unfolding assms tryOnceNoCooldown_def
    by (simp add: RedeemResult0_def Let_def isFatalError_def split: sum.splits)
next
  case (Inr g)
  from RedeemCode_classified [OF Inr] Inr show ?thesis
    unfolding assms tryOnceNoCooldown_def
    by (simp add: RedeemResult0_def Let_def isFatalError_def isSuccess_def split: sum.splits)
qed

lemma pickNext_scan_Ready:
  "pickNext_scan now sts i e = Ready k \<Longrightarrow> \<exists>j. k = i + j \<and> j < length sts \<and> \<not> finalized (sts ! j)"
proof (induction sts arbitrary: i e)
  case Nil
  then show ?case by (simp split: option.splits prod.splits)
next
  case (Cons st sts)
  show ?case
  proof (cases "finalized st \<or> nextReadyAt st > now")
    case True
    then obtain e' where "pickNext_scan now sts (i + 1) e' = Ready k"
      using Cons.prems by (auto split: if_splits)
    from Cons.IH [OF this] obtain j where "k = i + 1 + j" "j < length sts" "\<not> finalized (sts ! j)"
      by blast
    then have "k = i + Suc j \<and> Suc j < length (st # sts) \<and> \<not> finalized ((st # sts) ! Suc j)"
      by simp
    then show ?thesis by blast
  next
    case False
    then have "k = i + 0 \<and> 0 < length (st # sts) \<and> \<not> finalized ((st # sts) ! 0)"
      using Cons.prems by simp
    then show ?thesis by blast
  qed
qed

lemma pickNext_scan_Earliest:
  "pickNext_scan now sts i e = Earliest k t \<Longrightarrow>
     e = Some (k, t) \<or> (\<exists>j. k = i + j \<and> j < length sts \<and> \<not> finalized (sts ! j))"
proof (induction sts arbitrary: i e)
  case Nil
  then show ?case by (simp split: option.splits prod.splits)
next
  case (Cons st sts)
  show ?case
  proof (cases "finalized st")
    case True
    then have "pickNext_scan now sts (i + 1) e = Earliest k t"
      using Cons.prems by simp
    from Cons.IH [OF this] show ?thesis
    proof
      assume "e = Some (k, t)" then show ?thesis by simp
    next
      assume "\<exists>j. k = i + 1 + j \<and> j < length sts \<and> \<not> finalized (sts ! j)"
      then obtain j where "k = i + 1 + j" "j < length sts" "\<not> finalized (sts ! j)" by blast
      then have "k = i + Suc j \<and> Suc j < length (st # sts) \<and> \<not> finalized ((st # sts) ! Suc j)"
        by simp
      then show ?thesis by blast
    qed
  next
    case False
    then obtain e' where e': "pickNext_scan now sts (i + 1) e' = Earliest k t"
      and cases: "e' = e \<or> e' = Some (i, nextReadyAt st)"
      using Cons.prems by (auto split: if_splits)
    from Cons.IH [OF e'] show ?thesis
    proof
      assume "e' = Some (k, t)"
      with cases have "e = Some (k, t) \<or> k = i" by auto
      then show ?thesis
      proof
        assume "k = i"
        then have "k = i + 0 \<and> 0 < length (st # sts) \<and> \<not> finalized ((st # sts) ! 0)"
          using False by simp
        then show ?thesis by blast
      qed simp
    next
      assume "\<exists>j. k = i + 1 + j \<and> j < length sts \<and> \<not> finalized (sts ! j)"
      then obtain j where "k = i + 1 + j" "j < length sts" "\<not> finalized (sts ! j)" by blast
      then have "k = i + Suc j \<and> Suc j < length (st # sts) \<and> \<not> finalized ((st # sts) ! Suc j)"
        by simp
      then show ?thesis by blast
    qed
  qed
qed

lemma pickNext_scan_NoneLeft:
  "pickNext_scan now sts i e = NoneLeft \<Longrightarrow> e = None \<and> list_all finalized sts"
proof (induction sts arbitrary: i e)
  case Nil
  then show ?case by (simp split: option.splits prod.splits)
next
  case (Cons st sts)
  show ?case
  proof (cases "finalized st")
    case True
    then have "pickNext_scan now sts (i + 1) e = NoneLeft" using Cons.prems by simp
    from Cons.IH [OF this] True show ?thesis by simp
  next
    case False
    consider (ready) "\<not> nextReadyAt st > now"
      | (newer) "pickNext_scan now sts (i + 1) (Some (i, nextReadyAt st)) = NoneLeft"
      | (older) "pickNext_scan now sts (i + 1) e = NoneLeft"
                "\<not> (case e of None \<Rightarrow> True | Some (j, t) \<Rightarrow> nextReadyAt st < t)"
      using Cons.prems False by (auto split: if_splits)
    then show ?thesis
    proof cases
      case ready
      with Cons.prems False show ?thesis by simp
    next
      case newer
      from Cons.IH [OF this] show ?thesis by simp
    next
      case older
      from Cons.IH [OF older(1)] older(2) show ?thesis by simp
    qed
  qed
qed

lemma pickNext_picks_pending:
  assumes "pickNext tick now sts c = (Some (idx, wait), c')"
  shows "idx < length sts \<and> \<not> finalized (sts ! idx)"
proof (cases "pickNext_scan now sts 0 None")
  case (Ready k)
  with assms have "k = idx" by (simp add: pickNext_def)
  with pickNext_scan_Ready [OF Ready] show ?thesis by simp
next
  case (Earliest k t)
  with assms have "k = idx" by (simp add: pickNext_def split: prod.splits)
  with pickNext_scan_Earliest [OF Earliest] show ?thesis by simp
next
  case NoneLeft
  with assms show ?thesis by (simp add: pickNext_def)
qed

lemma pickNext_scan_Earliest_waits:
  "pickNext_scan now sts i e = Earliest k t \<Longrightarrow>
     (\<forall>st\<in>set sts. \<not> finalized st \<longrightarrow> now < nextReadyAt st) \<and>
     (e = Some (k, t) \<or> (\<exists>j<length sts. k = i + j \<and> t = nextReadyAt (sts ! j)))"
proof (induction sts arbitrary: i e)
  case Nil
  then show ?case by (simp split: option.splits prod.splits)
next
  case (Cons st sts)
  show ?case
  proof (cases "finalized st")
    case True
    then have "pickNext_scan now sts (i + 1) e = Earliest k t"
      using Cons.prems by simp
    from Cons.IH [OF this] True show ?thesis by fastforce
  next
    case False
    then have late: "now < nextReadyAt st" using Cons.prems by (auto split: if_splits)
    from False late obtain e' where e': "pickNext_scan now sts (i + 1) e' = Earliest k t"
      and cases: "e' = e \<or> e' = Some (i, nextReadyAt st)"
      using Cons.prems by (auto split: if_splits)
    from Cons.IH [OF e'] have rest: "\<forall>st\<in>set sts. \<not> finalized st \<longrightarrow> now < nextReadyAt st"
      and from_rest: "e' = Some (k, t) \<or> (\<exists>j<length sts. k = i + 1 + j \<and> t = nextReadyAt (sts ! j))"
      by simp_all
    from from_rest have "e = Some (k, t) \<or> (\<exists>j<length (st # sts). k = i + j \<and> t = nextReadyAt ((st # sts) ! j))"
    proof
      assume "e' = Some (k, t)"
      with cases have "e = Some (k, t) \<or> (k = i \<and> t = nextReadyAt st)" by auto
      then show ?thesis
      proof
        assume "k = i \<and> t = nextReadyAt st"
        then have "0 < length (st # sts) \<and> k = i + 0 \<and> t = nextReadyAt ((st # sts) ! 0)" by simp
        then show ?thesis by blast
      qed simp
    next
      assume "\<exists>j<length sts. k = i + 1 + j \<and> t = nextReadyAt (sts ! j)"
      then obtain j where "j < length sts" "k = i + 1 + j" "t = nextReadyAt (sts ! j)" by blast
      then have "Suc j < length (st # sts) \<and> k = i + Suc j \<and> t = nextReadyAt ((st # sts) ! Suc j)"
        by simp
      then show ?thesis by blast
    qed
    with rest late show ?thesis by simp
  qed
qed

lemma clk_time_Now: "clk_time (snd (Now tick c)) = fst (Now tick c)" "clk_time c \<le> fst (Now tick c)"
  by (simp_all add: Now_def Let_def)

lemma pickNext_waits:
  assumes "pickNext tick now sts c = (Some (idx, wait), c')" "wait > 0"
  shows "(\<forall>st\<in>set sts. \<not> finalized st \<longrightarrow> now < nextReadyAt st) \<and>
         clk_time (Sleep wait c') = nextReadyAt (sts ! idx)"
proof (cases "pickNext_scan now sts 0 None")
  case (Ready k)
  with assms show ?thesis by (simp add: pickNext_def)
next
  case (Earliest k t)
  with assms have k: "k = idx" and w: "wait = t - fst (Now tick c)" and c': "c' = snd (Now tick c)"
    by (auto simp: pickNext_def split: prod.splits)
  from pickNext_scan_Earliest_waits [OF Earliest] k
  have late: "\<forall>st\<in>set sts. \<not> finalized st \<longrightarrow> now < nextReadyAt st" and t: "t = nextReadyAt (sts ! idx)"
    by auto
  have "clk_time (Sleep wait c') = clk_time c' + wait" using assms(2) by (simp add: Sleep_def)
  also have "\<dots> = t" unfolding c' w clk_time_Now by simp
  finally show ?thesis using late t by simp
next
  case NoneLeft
  with assms show ?thesis by (simp add: pickNext_def)
qed

lemma pickNext_none_all_finalized:
  assumes "pickNext tick now sts c = (None, c')"
  shows "list_all finalized sts"
proof (cases "pickNext_scan now sts 0 None")
  case NoneLeft
  from pickNext_scan_NoneLeft [OF this] show ?thesis by simp
qed (use assms in \<open>simp_all add: pickNext_def split: prod.splits\<close>)

lemma tryOnce_code_not_final:
  assumes "r = tryOnceNoCooldown fid giftCode env"
      and "rr_ErrCode r = 40101 \<or> rr_ErrCode r = 40102 \<or> rr_ErrCode r = 40103 \<or> rr_ErrCode r = 40100"
  shows "\<not> rr_Success r \<and> \<not> rr_IsFatal r"
  using tryOnce_classified [OF assms(1)] assms(2) by (auto simp: isFatalError_def)

lemma settle_busy:
  assumes "\<not> rr_Success r" "\<not> rr_IsFatal r" "rr_ErrCode r = 40101"
  shows "settle tick r p st c =
           (if cooldowns st + 1 \<ge> 3
            then (st\<lparr>cooldowns := cooldowns st + 1, attemptsInCycle := 0, finalized := True\<rparr>,
                  [mk_tmp st r p], c)
            else (st\<lparr>cooldowns := cooldowns st + 1, attemptsInCycle := 0,
                     nextReadyAt := fst (Now tick c) + 60 * Second\<rparr>, [], snd (Now tick c)))"
  using assms by (simp add: settle_def Let_def split: prod.splits)

lemma settle_captcha:
  assumes "\<not> rr_Success r" "\<not> rr_IsFatal r" "rr_ErrCode r = 40102 \<or> rr_ErrCode r = 40103"
  shows "settle tick r p st c =
           (if attemptsInCycle st + 1 \<ge> 3
            then (if cooldowns st + 1 \<ge> 3
                  then (st\<lparr>attemptsInCycle := 0, cooldowns := cooldowns st + 1, finalized := True\<rparr>,
                        [mk_tmp st r p], c)
                  else (st\<lparr>attemptsInCycle := 0, cooldowns := cooldowns st + 1,
                           nextReadyAt := fst (Now tick c) + 60 * Second\<rparr>, [], snd (Now tick c)))
            else (st\<lparr>attemptsInCycle := attemptsInCycle st + 1,
                     nextReadyAt := fst (Now tick c) + 3 * Second\<rparr>, [], snd (Now tick c)))"
  using assms by (auto simp add: settle_def Let_def split: prod.splits)

lemma settle_fatal:
  assumes "\<not> rr_Success r" "rr_IsFatal r \<or> isFatalError (rr_ErrCode r)"
  shows "settle tick r p st c = (st\<lparr>finalized := True\<rparr>, [mk_tmp st r p], c)"
  using assms by (auto simp add: settle_def Let_def isFatalError_def split: prod.splits)

lemma settle_often:
  assumes "\<not> rr_Success r" "\<not> rr_IsFatal r" "rr_ErrCode r = 40100"
  shows "settle tick r p st c =
           (st\<lparr>attemptsInCycle := attemptsInCycle st + 1,
               nextReadyAt := fst (Now tick c) + 3 * Second\<rparr>, [], snd (Now tick c))"
  using assms by (simp add: settle_def Let_def split: prod.splits)

lemma settle_success:
  assumes "rr_Success r"
  shows "settle tick r p st c =
           (st\<lparr>finalized := True\<rparr>, [(mk_tmp st r p)\<lparr>br_Result := ''success'', br_Error := []\<rparr>], c)"
  using assms by (simp add: settle_def Let_def)

lemma settle_default:
  assumes "\<not> rr_Success r" "\<not> rr_IsFatal r" "rr_ErrCode r \<noteq> 40101" "rr_ErrCode r \<noteq> 40102"
    "rr_ErrCode r \<noteq> 40103" "rr_ErrCode r \<noteq> 40100"
  shows "settle tick r p st c = (st\<lparr>finalized := True\<rparr>, [mk_tmp st r p], c)"
  using assms by (simp add: settle_def Let_def)

lemma br_key_mk_tmp [simp]:
  "br_key (mk_tmp st r p) = acc_key (acc st)"
  "br_key ((mk_tmp st r p)\<lparr>br_Result := x, br_Error := y\<rparr>) = acc_key (acc st)"
  by (simp_all add: br_key_def acc_key_def mk_tmp_def)

lemma settle_shape:
  assumes "settle tick r p st c = (st', out, c')"
  shows "acc st' = acc st \<and>
         ((finalized st' \<and> (\<exists>b. out = [b] \<and> br_key b = acc_key (acc st))) \<or>
          (finalized st' = finalized st \<and> out = []))"
proof -
  consider (success) "rr_Success r"
    | (fatal) "\<not> rr_Success r" "rr_IsFatal r"
    | (busy) "\<not> rr_Success r" "\<not> rr_IsFatal r" "rr_ErrCode r = 40101"
    | (captcha) "\<not> rr_Success r" "\<not> rr_IsFatal r" "rr_ErrCode r = 40102 \<or> rr_ErrCode r = 40103"
    | (often) "\<not> rr_Success r" "\<not> rr_IsFatal r" "rr_ErrCode r = 40100"
    | (other) "\<not> rr_Success r" "\<not> rr_IsFatal r" "rr_ErrCode r \<noteq> 40101" "rr_ErrCode r \<noteq> 40102"
        "rr_ErrCode r \<noteq> 40103" "rr_ErrCode r \<noteq> 40100"
    by blast
  then show ?thesis
  proof cases
    case success
    from assms show ?thesis unfolding settle_success [OF success] by auto
  next
    case fatal
    have "settle tick r p st c = (st\<lparr>finalized := True\<rparr>, [mk_tmp st r p], c)"
      using fatal by (intro settle_fatal) simp_all
    with assms show ?thesis by auto
  next
    case busy
    from assms show ?thesis unfolding settle_busy [OF busy] by (auto split: if_splits)
  next
    case captcha
    from assms show ?thesis unfolding settle_captcha [OF captcha] by (auto split: if_splits)
  next
    case often
    from assms show ?thesis unfolding settle_often [OF often] by auto
  next
    case other
    from assms show ?thesis unfolding settle_default [OF other] by auto
  qed
qed

lemma update_split:
  assumes "i < length xs"
  shows "\<exists>M. mset xs = add_mset (xs ! i) M \<and> mset (xs[i := y]) = add_mset y M"
proof -
  have "xs ! i \<in># mset xs" using assms by simp
  then have "mset xs = add_mset (xs ! i) (mset xs - {#xs ! i#})" by simp
  moreover have "mset (xs[i := y]) = add_mset y (mset xs - {#xs ! i#})"
    using assms by (rule mset_update)
  ultimately show ?thesis by blast
qed

lemma length_filter_size: "int (length (filter P xs)) = int (size (filter_mset P (mset xs)))"
  by (metis mset_filter size_mset)

lemma mset_map_filter: "mset (map f (filter P xs)) = image_mset f (filter_mset P (mset xs))"
  by simp

lemma sched_inv_update:
  assumes inv: "sched_inv accounts s"
      and idx: "idx < length (states s)" "\<not> finalized (states s ! idx)"
      and st: "settle tick r p (states s ! idx) c = (st', out, c')"
  shows "sched_inv accounts
           (s\<lparr>states := (states s)[idx := st'], results := results s @ out,
              pending := pending s - int (length out), lastSwitchAt := l, clk := k, attempts := n\<rparr>)"
proof -
  let ?xs = "states s"
  from settle_shape [OF st] have accs: "acc st' = acc (?xs ! idx)"
    and shape: "(finalized st' \<and> (\<exists>b. out = [b] \<and> br_key b = acc_key (acc (?xs ! idx)))) \<or>
          (\<not> finalized st' \<and> out = [])"
    using idx(2) by auto
  from update_split [OF idx(1)] obtain M where
    M: "mset ?xs = add_mset (?xs ! idx) M" "mset (?xs[idx := st']) = add_mset st' M"
    by blast
  have "map acc (?xs[idx := st']) = (map acc ?xs)[idx := acc st']"
    by (simp add: map_update)
  also have "\<dots> = map acc ?xs" using accs idx(1) by (simp add: list_update_same_conv)
  finally have a: "map acc (?xs[idx := st']) = accounts" using inv by (simp add: sched_inv_def)
  have p0: "pending s = int (size (filter_mset (\<lambda>st. \<not> finalized st) M)) + 1"
    using inv idx(2) unfolding sched_inv_def length_filter_size M by simp
  have r0: "mset (map br_key (results s)) = image_mset (\<lambda>st. acc_key (acc st)) (filter_mset finalized M)"
    using inv idx(2) unfolding sched_inv_def mset_map_filter M by simp
  from shape show ?thesis
  proof
    assume f: "finalized st' \<and> (\<exists>b. out = [b] \<and> br_key b = acc_key (acc (?xs ! idx)))"
    then obtain b where b: "out = [b]" "br_key b = acc_key (acc st')" using accs by auto
    show ?thesis
      unfolding sched_inv_def length_filter_size mset_map_filter
      using a p0 r0 f b by (simp add: M)
  next
    assume f: "\<not> finalized st' \<and> out = []"
    show ?thesis
      unfolding sched_inv_def length_filter_size mset_map_filter
      using a p0 r0 f by (simp add: M)
  qed
qed

lemma batch_iter_char:
  obtains (stop) "batch_iter tick tryOnce giftCode s = Break" "list_all finalized (states s)"
    | (sleep) c idx where "batch_iter tick tryOnce giftCode s = Continue (s\<lparr>clk := c\<rparr>)"
        "idx < length (states s)" "\<not> finalized (states s ! idx)"
        "clk_time c = nextReadyAt (states s ! idx)"
        "\<forall>st\<in>set (states s). \<not> finalized st \<longrightarrow> clk_time (clk s) < nextReadyAt st"
    | (attempt) idx r p c st' out c' l k where
        "idx < length (states s)" "\<not> finalized (states s ! idx)"
        "r = tryOnce (attempts s) (acc_FID (acc (states s ! idx))) giftCode"
        "settle tick r p (states s ! idx) c = (st', out, c')"
        "batch_iter tick tryOnce giftCode s =
           Continue (s\<lparr>states := (states s)[idx := st'], results := results s @ out,
                pending := pending s - int (length out), lastSwitchAt := l, clk := k,
                attempts := attempts s + 1\<rparr>)"
proof -
  obtain now c1 where n: "Now tick (clk s) = (now, c1)" by (cases "Now tick (clk s)")
  obtain pk c2 where pk: "pickNext tick now (states s) c1 = (pk, c2)"
    by (cases "pickNext tick now (states s) c1")
  show ?thesis
  proof (cases pk)
    case None
    have "batch_iter tick tryOnce giftCode s = Break"
      unfolding batch_iter_def n by (simp add: pk None)
    moreover have "list_all finalized (states s)"
      using pk None pickNext_none_all_finalized by blast
    ultimately show ?thesis by (rule stop)
  next
    case (Some iw)
    obtain idx wait where iw: "iw = (idx, wait)" by (cases iw)
    from pickNext_picks_pending [of tick now "states s" c1 idx wait c2] pk Some iw
    have ok: "idx < length (states s)" "\<not> finalized (states s ! idx)" by simp_all
    show ?thesis
    proof (cases "wait > 0")
      case True
      have "batch_iter tick tryOnce giftCode s = Continue (s\<lparr>clk := Sleep wait c2\<rparr>)"
        unfolding batch_iter_def n by (simp add: pk Some iw True)
      moreover from pickNext_waits [of tick now "states s" c1 idx wait c2] pk Some iw True
      have "\<forall>st\<in>set (states s). \<not> finalized st \<longrightarrow> now < nextReadyAt st"
        and "clk_time (Sleep wait c2) = nextReadyAt (states s ! idx)" by simp_all
      moreover have "clk_time (clk s) \<le> now" using clk_time_Now(2) [of "clk s" tick] n by simp
      ultimately show ?thesis using ok by (intro sleep [of "Sleep wait c2" idx]) auto
    next
      case False
      define c3 where "c3 = (case lastSwitchAt s of
                        None \<Rightarrow> c2
                      | Some l \<Rightarrow>
                          (let (t, c) = Now tick c2; since = t - l
                           in if since < minSwitchDelay then Sleep (minSwitchDelay - since) c else c))"
      obtain stepStart c4 where t4: "Now tick c3 = (stepStart, c4)" by (cases "Now tick c3")
      obtain stepEnd c5 where t5: "Now tick c4 = (stepEnd, c5)" by (cases "Now tick c4")
      obtain switched c6 where t6: "Now tick c5 = (switched, c6)" by (cases "Now tick c5")
      define r where "r = tryOnce (attempts s) (acc_FID (acc (states s ! idx))) giftCode"
      obtain st' out c7 where st: "settle tick r ((stepEnd - stepStart) div Second) (states s ! idx) c6 = (st', out, c7)"
        by (cases "settle tick r ((stepEnd - stepStart) div Second) (states s ! idx) c6")
      have "batch_iter tick tryOnce giftCode s =
              Continue (s\<lparr>states := (states s)[idx := st'], results := results s @ out,
                pending := pending s - int (length out), lastSwitchAt := Some switched, clk := c7,
                attempts := attempts s + 1\<rparr>)"
        unfolding batch_iter_def n
        by (simp add: pk Some iw False Let_def c3_def [symmetric] t4 t5 t6 r_def [symmetric] st)
      with ok r_def st show ?thesis by (intro attempt)
    qed
  qed
qed

lemma batch_iter_inv:
  assumes "batch_iter tick tryOnce giftCode s = Continue s'" "sched_inv accounts s"
  shows "sched_inv accounts s'"
proof (cases rule: batch_iter_char [of tick tryOnce giftCode s])
  case stop
  with assms(1) show ?thesis by simp
next
  case (sleep c idx)
  with assms show ?thesis by (auto simp: sched_inv_def)
next
  case (attempt idx r p c st' out c' l k)
  from sched_inv_update [OF assms(2) attempt(1,2,4)] attempt(5) assms(1) show ?thesis by simp
qed

lemma batch_iter_Break:
  assumes "batch_iter tick tryOnce giftCode s = Break"
  shows "list_all finalized (states s)"
  by (cases rule: batch_iter_char [of tick tryOnce giftCode s]) (use assms in simp_all)

lemma batch_loop_inv:
  assumes "batch_loop tick tryOnce giftCode fuel s = Some s'" "sched_inv accounts s"
  shows "sched_inv accounts s' \<and> list_all finalized (states s')"
  using assms
proof (induction fuel arbitrary: s)
  case 0
  then have "\<not> pending s > 0" "s' = s"
    by (simp_all add: batch_loop.simps [of _ _ _ 0] split: if_splits)
  moreover from this "0.prems"(2) have "filter (\<lambda>st. \<not> finalized st) (states s) = []"
    by (simp add: sched_inv_def)
  then have "list_all finalized (states s)"
    by (simp add: filter_empty_conv list_all_iff)
  ultimately show ?case using "0.prems"(2) by simp
next
  case (Suc n)
  show ?case
  proof (cases "pending s > 0")
    case False
    then have "s' = s" using Suc.prems(1) by (simp add: batch_loop.simps [of _ _ _ "Suc n"])
    moreover from False Suc.prems(2) have "filter (\<lambda>st. \<not> finalized st) (states s) = []"
      by (simp add: sched_inv_def)
    then have "list_all finalized (states s)"
      by (simp add: filter_empty_conv list_all_iff)
    ultimately show ?thesis using Suc.prems(2) by simp
  next
    case True
    show ?thesis
    proof (cases "batch_iter tick tryOnce giftCode s")
      case Break
      then have "s' = s" using True Suc.prems(1) by (simp add: batch_loop.simps [of _ _ _ "Suc n"])
      with batch_iter_Break [OF Break] Suc.prems(2) show ?thesis by simp
    next
      case (Continue s'')
      then have "batch_loop tick tryOnce giftCode n s'' = Some s'"
        using True Suc.prems(1) by (simp add: batch_loop.simps [of _ _ _ "Suc n"])
      moreover have "sched_inv accounts s''"
        using batch_iter_inv [OF Continue Suc.prems(2)] .
      ultimately show ?thesis by (rule Suc.IH)
    qed
  qed
qed

lemma init_states_fresh:
  "init_states tick accounts c = (sts, c') \<Longrightarrow>
     map acc sts = accounts \<and> list_all (\<lambda>st. \<not> finalized st) sts"
proof (induction accounts arbitrary: c sts c')
  case Nil
  then show ?case by simp
next
  case (Cons a as)
  obtain t c1 where t: "Now tick c = (t, c1)" by (cases "Now tick c")
  obtain sts1 c2 where r: "init_states tick as c1 = (sts1, c2)" by (cases "init_states tick as c1")
  from Cons.prems t r have
    "sts = \<lparr>acc = a, cooldowns = 0, attemptsInCycle = 0, nextReadyAt = t, finalized = False\<rparr> # sts1"
    by simp
  with Cons.IH [OF r] show ?case by simp
qed

lemma init_sched_inv: "sched_inv accounts (init_sched tick accounts)"
proof -
  obtain sts c where i: "init_states tick accounts \<lparr>clk_time = 0, clk_reads = 0\<rparr> = (sts, c)"
    by (cases "init_states tick accounts \<lparr>clk_time = 0, clk_reads = 0\<rparr>")
  from init_states_fresh [OF i] have "map acc sts = accounts" "filter (\<lambda>st. \<not> finalized st) sts = sts"
    "filter finalized sts = []"
    by (simp_all add: list_all_iff filter_empty_conv)
  then show ?thesis by (simp add: sched_inv_def init_sched_def i)
qed

text \<open>
  C10. Whenever \<open>RedeemBatch\<close> returns, its results are the input accounts, each exactly
  once: the results, read as pairs of account id and FID, are the same multiset as the
  accounts, and so there are as many results as accounts.
\<close>

theorem C10_one_result_per_account:
  assumes "RedeemBatch tick tryOnce fuel accounts giftCode = Some rs"
  shows "mset (map (\<lambda>r. (br_AccountID r, br_FID r)) rs) = mset (map (\<lambda>a. (acc_ID a, acc_FID a)) accounts)
         \<and> length rs = length accounts"
proof -
  from assms obtain s' where
    l: "batch_loop tick tryOnce giftCode fuel (init_sched tick accounts) = Some s'" and rs: "rs = results s'"
    by (auto simp: RedeemBatch_def)
  from batch_loop_inv [OF l init_sched_inv] have inv: "sched_inv accounts s'"
    and fin: "list_all finalized (states s')" by simp_all
  from fin have "filter finalized (states s') = states s'" by (simp add: list_all_iff)
  with inv have "mset (map br_key (results s')) = mset (map (\<lambda>st. acc_key (acc st)) (states s'))"
    and "map acc (states s') = accounts"
    by (simp_all add: sched_inv_def)
  moreover have "map (\<lambda>st. acc_key (acc st)) (states s') = map acc_key (map acc (states s'))"
    by simp
  ultimately have m: "mset (map br_key rs) = mset (map acc_key accounts)"
    using rs by simp
  then have "size (mset (map br_key rs)) = size (mset (map acc_key accounts))" by simp
  then have "length rs = length accounts" by simp
  with m show ?thesis by (simp add: br_key_def [abs_def] acc_key_def [abs_def])
qed

theorem C10_one_result_per_account_witness:
  "RedeemBatch (\<lambda>_. 0) (\<lambda>k fid code. tryOnceNoCooldown fid code (scenario k)) 10
       [account1, account2] ''ABC123''
     = Some [\<lparr>br_AccountID = 1, br_FID = ''1001'', br_Result = ''success'', br_Error = [],
           br_CaptchaRecognized = ''AB12'', br_ProcessingTime = 0, br_ErrCode = 20000,
           br_Success = True, br_Skipped = False\<rparr>,
          \<lparr>br_AccountID = 2, br_FID = ''1002'', br_Result = ''success'', br_Error = [],
           br_CaptchaRecognized = ''AB12'', br_ProcessingTime = 0, br_ErrCode = 20000,
           br_Success = True, br_Skipped = False\<rparr>] \<and>
   mset [(1, ''1001''), (2, ''1002'')] = mset (map (\<lambda>a. (acc_ID a, acc_FID a)) [account1, account2])"
proof -
  have h: "RedeemBatch (\<lambda>_. 0) (\<lambda>k fid code. tryOnceNoCooldown fid code (scenario k)) 10
       [account1, account2] ''ABC123''
     = Some [\<lparr>br_AccountID = 1, br_FID = ''1001'', br_Result = ''success'', br_Error = [],
           br_CaptchaRecognized = ''AB12'', br_ProcessingTime = 0, br_ErrCode = 20000,
           br_Success = True, br_Skipped = False\<rparr>,
          \<lparr>br_AccountID = 2, br_FID = ''1002'', br_Result = ''success'', br_Error = [],
           br_CaptchaRecognized = ''AB12'', br_ProcessingTime = 0, br_ErrCode = 20000,
           br_Success = True, br_Skipped = False\<rparr>]"
    by code_simp
  from C10_one_result_per_account [OF h] h show ?thesis by simp
qed

lemma tryOnce_too_often:
  "tryOnceNoCooldown fid giftCode captcha_too_often =
     (RedeemResult0 fid giftCode)\<lparr>rr_Error := ''captcha requested too often'', rr_Stage := ''captcha'',
                                  rr_ErrCode := 40100\<rparr>"
  by (simp add: tryOnceNoCooldown_def captcha_too_often_def ok_login_def api_error_def Login_def
      GetCaptcha_def StatusOK_def GameResult0_def Let_def getErrorMessage_def errorMap_def)

lemma too_often_keeps_pending:
  assumes "all_pending s"
  shows "\<exists>s'. batch_iter tick (\<lambda>k fid code. tryOnceNoCooldown fid code captcha_too_often) giftCode s = Continue s'
              \<and> all_pending s'"
proof (cases rule: batch_iter_char [of tick "\<lambda>k fid code. tryOnceNoCooldown fid code captcha_too_often" giftCode s])
  case stop
  with assms show ?thesis by (cases "states s") (simp_all add: all_pending_def)
next
  case (sleep c idx)
  with assms show ?thesis by (simp add: all_pending_def)
next
  case (attempt idx r p c st' out c' l k)
  have "\<not> rr_Success r" "\<not> rr_IsFatal r" "rr_ErrCode r = 40100"
    unfolding attempt(3) tryOnce_too_often by (simp_all add: RedeemResult0_def)
  from settle_often [OF this] attempt(4)
  have st': "st' = (states s ! idx)\<lparr>attemptsInCycle := attemptsInCycle (states s ! idx) + 1,
               nextReadyAt := fst (Now tick c) + 3 * Second\<rparr>" and out: "out = []"
    by simp_all
  have "\<not> finalized st'" using st' attempt(2) by simp
  then have "list_all (\<lambda>st. \<not> finalized st) ((states s)[idx := st'])"
    using assms by (auto simp: all_pending_def list_all_iff dest: set_update_subset_insert [THEN subsetD])
  then show ?thesis using attempt(5) out assms by (simp add: all_pending_def)
qed

lemma too_often_no_return:
  assumes "all_pending s"
  shows "batch_loop tick (\<lambda>k fid code. tryOnceNoCooldown fid code captcha_too_often) giftCode fuel s = None"
  using assms
proof (induction fuel arbitrary: s)
  case 0
  then have "pending s > 0" by (cases "states s") (simp_all add: all_pending_def)
  then show ?case by (simp add: batch_loop.simps [of _ _ _ 0])
next
  case (Suc n)
  then have p: "pending s > 0" by (cases "states s") (simp_all add: all_pending_def)
  from too_often_keeps_pending [OF Suc.prems] obtain s' where
    s': "batch_iter tick (\<lambda>k fid code. tryOnceNoCooldown fid code captcha_too_often) giftCode s = Continue s'"
    "all_pending s'" by blast
  from Suc.IH [OF s'(2)] s'(1) p show ?case
    by (simp add: batch_loop.simps [of _ _ _ "Suc n"])
qed

text \<open>
  C2. The claim says that the loop ends for every sequence of outcomes, also when the
  attempts of an account return code 40100 for ever. It does not: with a game API that
  answers every captcha request with 40100, \<open>RedeemBatch\<close> on a non-empty list of
  accounts does not return, whatever the number of passes through the loop and however
  the clock advances.
\<close>

theorem C2_too_often_never_returns:
  "RedeemBatch tick (\<lambda>k fid code. tryOnceNoCooldown fid code captcha_too_often) fuel (a # as) giftCode = None"
proof -
  obtain sts c where i: "init_states tick (a # as) \<lparr>clk_time = 0, clk_reads = 0\<rparr> = (sts, c)"
    by (cases "init_states tick (a # as) \<lparr>clk_time = 0, clk_reads = 0\<rparr>")
  from init_states_fresh [OF i] have "sts \<noteq> []" "list_all (\<lambda>st. \<not> finalized st) sts" by auto
  then have "all_pending (init_sched tick (a # as))"
    unfolding init_sched_def i by (simp add: all_pending_def)
  from too_often_no_return [OF this] show ?thesis by (simp add: RedeemBatch_def)
qed



lemma transport_failures_server_busy:
  assumes "body = Unreadable \<or> status \<noteq> StatusOK \<or> body = Undecodable"
  shows "Login (Responded status body) = Inr busy_result"
    and "GetCaptcha (Responded status body) = Inr busy_result"
    and "RedeemCode (Responded status body) = Inr busy_result"
    and "gr_ErrCode busy_result = 40101"
  using assms
  by (auto simp: Login_def GetCaptcha_def RedeemCode_def busy_result_def GameResult0_def
      split: http_body.splits)

text \<open>
  C6. The claim classifies every transport failure as server busy (code 40101). A failing
  read of the body, a status other than 200 and an undecodable body are (lemma
  \<open>transport_failures_server_busy\<close>), but a network error of the round-trip itself
  (\<open>client.Do\<close> fails, as on a timeout) is not: each of \<open>Login\<close>, \<open>GetCaptcha\<close> and
  \<open>RedeemCode\<close> returns a result with the error text and code 0, and an attempt whose
  login fails so reports code 0, which the scheduler treats as an unclassified error.
\<close>

theorem C6_network_error_has_code_0:
  "Login (DoFailed err) =
     Inr \<lparr>gr_Success = False, gr_Data = [], gr_Error = err, gr_ErrCode = 0, gr_IsFatal = False\<rparr> \<and>
   GetCaptcha (DoFailed err) =
     Inr \<lparr>gr_Success = False, gr_Data = [], gr_Error = err, gr_ErrCode = 0, gr_IsFatal = False\<rparr> \<and>
   RedeemCode (DoFailed err) =
     Inr \<lparr>gr_Success = False, gr_Data = [], gr_Error = err, gr_ErrCode = 0, gr_IsFatal = False\<rparr> \<and>
   rr_ErrCode (tryOnceNoCooldown fid giftCode (env\<lparr>env_login := DoFailed err\<rparr>)) = 0"
  by (simp add: Login_def GetCaptcha_def RedeemCode_def GameResult0_def tryOnceNoCooldown_def
      RedeemResult0_def isFatalError_def)

section \<open>Properties of the redeem log repository\<close>

lemma ReplaceRedeemLog_success:
  assumes "ReplaceRedeemLog env args tbl = (Inr i, tbl')"
  shows "tbl' = filter (\<lambda>row. \<not> same_pair (log_RedeemCodeID args) (log_GameAccountID args) row) tbl
                 @ [args\<lparr>log_ID := i\<rparr>]"
  using assms by (auto simp: ReplaceRedeemLog_def Let_def split: if_splits)

text \<open>
  C9. Two calls of \<open>ReplaceRedeemLog\<close> in succession for the same pair of redeem code
  and account, the second one successful: whatever the table was before and whatever the
  first call did, the table then holds exactly one row for the pair, the row of the
  second call; the rows of other pairs are untouched; the second call removed every
  earlier row of the pair and added one row. A call that fails before its commit leaves
  the table unchanged.
\<close>

theorem C9_replace_leaves_one_row:
  assumes first: "ReplaceRedeemLog env1 args1 tbl0 = (res1, tbl1)"
      and second: "ReplaceRedeemLog env2 args2 tbl1 = (Inr i2, tbl2)"
      and pair: "log_RedeemCodeID args2 = c" "log_GameAccountID args2 = a"
  shows "filter (same_pair c a) tbl2 = [args2\<lparr>log_ID := i2\<rparr>] \<and>
         filter (\<lambda>row. \<not> same_pair c a row) tbl2 = filter (\<lambda>row. \<not> same_pair c a row) tbl1 \<and>
         tbl2 = filter (\<lambda>row. \<not> same_pair c a row) tbl1 @ [args2\<lparr>log_ID := i2\<rparr>] \<and>
         (env_fault env1 \<in> {BeginFails, DeleteFails, InsertFails, CommitFails} \<longrightarrow> tbl1 = tbl0)"
proof -
  from ReplaceRedeemLog_success [OF second] pair
  have t2: "tbl2 = filter (\<lambda>row. \<not> same_pair c a row) tbl1 @ [args2\<lparr>log_ID := i2\<rparr>]" by simp
  have sp: "same_pair c a (args2\<lparr>log_ID := i2\<rparr>)" using pair by (simp add: same_pair_def)
  have "filter (same_pair c a) (filter (\<lambda>row. \<not> same_pair c a row) tbl1) = []"
    by (simp add: filter_empty_conv)
  then have a1: "filter (same_pair c a) tbl2 = [args2\<lparr>log_ID := i2\<rparr>]"
    unfolding t2 using sp by simp
  have a2: "filter (\<lambda>row. \<not> same_pair c a row) tbl2 = filter (\<lambda>row. \<not> same_pair c a row) tbl1"
    unfolding t2 using sp by simp
  have a3: "env_fault env1 \<in> {BeginFails, DeleteFails, InsertFails, CommitFails} \<longrightarrow> tbl1 = tbl0"
    using first by (auto simp: ReplaceRedeemLog_def Let_def)
  from a1 a2 t2 a3 show ?thesis by blast
qed

theorem C9_replace_leaves_one_row_witness:
  "ReplaceRedeemLog \<lparr>env_fault = NoFault, env_insert_id = 11\<rparr> log1 [log1\<lparr>log_ID := 2\<rparr>, other_log, log2\<lparr>log_ID := 5\<rparr>]
     = (Inr 11, [other_log, log1\<lparr>log_ID := 11\<rparr>]) \<and>
   ReplaceRedeemLog \<lparr>env_fault = NoFault, env_insert_id = 12\<rparr> log2 [other_log, log1\<lparr>log_ID := 11\<rparr>]
     = (Inr 12, [other_log, log2\<lparr>log_ID := 12\<rparr>]) \<and>
   filter (same_pair 7 1) [other_log, log2\<lparr>log_ID := 12\<rparr>] = [log2\<lparr>log_ID := 12\<rparr>] \<and>
   ReplaceRedeemLog \<lparr>env_fault = CommitFails, env_insert_id = 11\<rparr> log1 [other_log, log1\<lparr>log_ID := 11\<rparr>]
     = (Inl (SqlError CommitFails), [other_log, log1\<lparr>log_ID := 11\<rparr>])"
proof -
  have f: "ReplaceRedeemLog \<lparr>env_fault = NoFault, env_insert_id = 11\<rparr> log1 [log1\<lparr>log_ID := 2\<rparr>, other_log, log2\<lparr>log_ID := 5\<rparr>]
     = (Inr 11, [other_log, log1\<lparr>log_ID := 11\<rparr>])"
    by (simp add: ReplaceRedeemLog_def same_pair_def log1_def log2_def other_log_def)
  have s: "ReplaceRedeemLog \<lparr>env_fault = NoFault, env_insert_id = 12\<rparr> log2 [other_log, log1\<lparr>log_ID := 11\<rparr>]
     = (Inr 12, [other_log, log2\<lparr>log_ID := 12\<rparr>])"
    by (simp add: ReplaceRedeemLog_def same_pair_def log1_def log2_def other_log_def)
  have c: "log_RedeemCodeID log2 = 7" and a: "log_GameAccountID log2 = 1"
    by (simp_all add: log2_def)
  have g: "ReplaceRedeemLog \<lparr>env_fault = CommitFails, env_insert_id = 11\<rparr> log1 [other_log, log1\<lparr>log_ID := 11\<rparr>]
     = (Inl (SqlError CommitFails), [other_log, log1\<lparr>log_ID := 11\<rparr>])"
    by (simp add: ReplaceRedeemLog_def)
  from C9_replace_leaves_one_row [OF f s c a] C9_replace_leaves_one_row [OF g s c a]
  have "filter (same_pair 7 1) [other_log, log2\<lparr>log_ID := 12\<rparr>] = [log2\<lparr>log_ID := 12\<rparr>]"
    by blast
  with f s g show ?thesis by blast
qed

section \<open>Properties of the OCR key manager\<close>

subsection \<open>Rounding to \<open>float64\<close>\<close>

text \<open>
  \<open>pow2 k\<close> is \<open>2^k\<close> for every integer \<open>k\<close>; \<open>binade x\<close> is the exponent of a
  positive \<open>x\<close>. Rounding is monotone, it is exact on every number with a significand of
  53 bits, in particular on the integers up to \<open>2^53\<close>, and it commutes with doubling.
\<close>

lemma pow2_powr: "pow2 k = 2 powr real_of_int k"
  by (simp add: pow2_def powr_int)

lemma pow2_pos [simp]: "0 < pow2 k"
  by (simp add: pow2_powr)

lemma pow2_nonneg [simp]: "0 \<le> pow2 k"
  by (simp add: pow2_powr)

lemma pow2_add: "pow2 (a + b) = pow2 a * pow2 b"
  by (simp add: pow2_powr powr_add)

lemma pow2_le [simp]: "pow2 a \<le> pow2 b \<longleftrightarrow> a \<le> b"
  by (simp add: pow2_powr)

lemma pow2_less [simp]: "pow2 a < pow2 b \<longleftrightarrow> a < b"
  by (simp add: pow2_powr)

lemma pow2_nat: "0 \<le> k \<Longrightarrow> pow2 k = 2 ^ nat k"
  by (simp add: pow2_def)

lemma pow2_neg: "0 \<le> k \<Longrightarrow> pow2 (- k) = 1 / 2 ^ nat k"
  by (cases "k = 0") (simp_all add: pow2_def)

lemma pow2_cancel: "pow2 a * pow2 (- a) = 1"
  using pow2_add [of a "- a"] by (simp add: pow2_def)

lemma pow2_numeral: "pow2 1 = 2" "pow2 52 = 2 ^ 52" "pow2 53 = 2 ^ 53"
  by (simp_all add: pow2_def)

lemma binade_bounds:
  assumes "0 < x"
  shows "pow2 (binade x) \<le> x" and "x < pow2 (binade x + 1)"
proof -
  have "pow2 (binade x) \<le> x \<and> x < pow2 (binade x + 1)"
  proof (cases "1 \<le> x")
    case True
    define n where "n = \<lfloor>x\<rfloor>"
    have n: "1 \<le> n" "of_int n \<le> x" "x < of_int n + 1" using True by (simp_all add: n_def)
    then have n0: "0 < n" by simp
    from bitlen_bounds [OF n0] have b: "2 ^ nat (bitlen n - 1) \<le> n" "n + 1 \<le> 2 ^ nat (bitlen n)"
      by simp_all
    have b1: "1 \<le> bitlen n" using n0 bitlen_eq_zero_iff [of n] bitlen_nonneg [of n] by linarith
    have e: "binade x = bitlen n - 1" using True by (simp add: binade_def n_def)
    have "pow2 (bitlen n - 1) = 2 ^ nat (bitlen n - 1)" using b1 by (simp add: pow2_nat)
    also have "\<dots> = of_int (2 ^ nat (bitlen n - 1))" by simp
    also have "\<dots> \<le> of_int n" using b(1) by (simp only: of_int_le_iff)
    finally have 1: "pow2 (binade x) \<le> x" using n(2) e by simp
    have "x < of_int (n + 1)" using n(3) by simp
    also have "\<dots> \<le> of_int (2 ^ nat (bitlen n))" using b(2) by (simp only: of_int_le_iff)
    also have "\<dots> = pow2 (bitlen n)" using b1 by (simp add: pow2_nat)
    finally have 2: "x < pow2 (binade x + 1)" using e by simp
    from 1 2 show ?thesis ..
  next
    case False
    define y where "y = 1 / x"
    define m where "m = \<lceil>y\<rceil> - 1"
    have y1: "1 < y" using False assms by (simp add: y_def)
    have m: "of_int m < y" "y \<le> of_int m + 1" by (simp_all add: m_def) linarith+
    have "1 < \<lceil>y\<rceil>" using y1 by (simp add: less_ceiling_iff)
    then have m0: "0 < m" by (simp add: m_def)
    from bitlen_bounds [OF m0] have b: "2 ^ nat (bitlen m - 1) \<le> m" "m + 1 \<le> 2 ^ nat (bitlen m)"
      by simp_all
    have b1: "1 \<le> bitlen m" using m0 bitlen_eq_zero_iff [of m] bitlen_nonneg [of m] by linarith
    have e: "binade x = - bitlen m" using False by (simp add: binade_def m_def y_def)
    have x: "x = 1 / y" using assms by (simp add: y_def)
    have "y \<le> of_int (m + 1)" using m(2) by simp
    also have "\<dots> \<le> of_int (2 ^ nat (bitlen m))" using b(2) by (simp only: of_int_le_iff)
    finally have "y \<le> 2 ^ nat (bitlen m)" by simp
    then have "1 / 2 ^ nat (bitlen m) \<le> 1 / y" using y1 by (intro divide_left_mono) simp_all
    moreover have "pow2 (binade x) = 1 / 2 ^ nat (bitlen m)"
      unfolding e using b1 by (simp add: pow2_neg)
    ultimately have 1: "pow2 (binade x) \<le> x" using x by simp
    have "(2::real) ^ nat (bitlen m - 1) = of_int (2 ^ nat (bitlen m - 1))" by simp
    also have "\<dots> \<le> of_int m" using b(1) by (simp only: of_int_le_iff)
    also have "\<dots> < y" by (rule m(1))
    finally have "1 / y < 1 / 2 ^ nat (bitlen m - 1)"
      using y1 by (intro divide_strict_left_mono) simp_all
    moreover have "pow2 (- bitlen m + 1) = 1 / 2 ^ nat (bitlen m - 1)"
      using pow2_neg [of "bitlen m - 1"] b1 by simp
    moreover have "pow2 (binade x + 1) = pow2 (- bitlen m + 1)" unfolding e by simp
    ultimately have 2: "x < pow2 (binade x + 1)" using x by simp
    from 1 2 show ?thesis ..
  qed
  then show "pow2 (binade x) \<le> x" and "x < pow2 (binade x + 1)" by simp_all
qed

lemma binade_unique:
  assumes "pow2 k \<le> x" "x < pow2 (k + 1)"
  shows "binade x = k"
proof -
  have x: "0 < x" using assms(1) pow2_pos [of k] by linarith
  note b = binade_bounds [OF x]
  from assms(1) b(2) have "pow2 k < pow2 (binade x + 1)" by linarith
  moreover from b(1) assms(2) have "pow2 (binade x) < pow2 (k + 1)" by linarith
  ultimately show ?thesis by simp
qed

lemma rne_of_int [simp]: "rne (of_int n) = n"
  by (simp add: rne_def)

lemma rne_numeral [simp]: "rne (numeral k) = numeral k"
  using rne_of_int [of "numeral k"] by simp

lemma rne_bounds: "\<lfloor>x\<rfloor> \<le> rne x" "rne x \<le> \<lfloor>x\<rfloor> + 1"
  by (simp_all add: rne_def Let_def)

lemma rne_mono:
  assumes "x \<le> y"
  shows "rne x \<le> rne y"
proof (cases "\<lfloor>x\<rfloor> = \<lfloor>y\<rfloor>")
  case True
  with assms show ?thesis by (auto simp: rne_def Let_def)
next
  case False
  with assms have "\<lfloor>x\<rfloor> < \<lfloor>y\<rfloor>" using floor_mono [OF assms] by linarith
  with rne_bounds(2) [of x] rne_bounds(1) [of y] show ?thesis by linarith
qed

lemma float64_pos:
  "0 < x \<Longrightarrow> float64 x = of_int (rne (x * pow2 (52 - binade x))) * pow2 (binade x - 52)"
  by (simp add: float64_def Let_def)

lemma float64_zero [simp]: "float64 0 = 0"
  by (simp add: float64_def)

lemma mantissa_range:
  assumes "0 < x"
  shows "2 ^ 52 \<le> rne (x * pow2 (52 - binade x))" "rne (x * pow2 (52 - binade x)) \<le> 2 ^ 53"
proof -
  note b = binade_bounds [OF assms]
  have p: "pow2 (binade x) * pow2 (52 - binade x) = 2 ^ 52"
    "pow2 (binade x + 1) * pow2 (52 - binade x) = 2 ^ 53"
    using pow2_add [of "binade x" "52 - binade x"] pow2_add [of "binade x + 1" "52 - binade x"]
    by (simp_all add: pow2_numeral)
  have nn: "0 \<le> pow2 (52 - binade x)" by (rule less_imp_le [OF pow2_pos])
  have "of_int (2 ^ 52) \<le> x * pow2 (52 - binade x)"
    using mult_right_mono [OF b(1) nn] p(1) by simp
  from rne_mono [OF this] show "2 ^ 52 \<le> rne (x * pow2 (52 - binade x))" by simp
  have "x * pow2 (52 - binade x) \<le> of_int (2 ^ 53)"
    using mult_right_mono [OF less_imp_le [OF b(2)] nn] p(2) by simp
  from rne_mono [OF this] show "rne (x * pow2 (52 - binade x)) \<le> 2 ^ 53" by simp
qed

lemma float64_range:
  assumes "0 < x"
  shows "pow2 (binade x) \<le> float64 x" "float64 x \<le> pow2 (binade x + 1)"
proof -
  note m = mantissa_range [OF assms]
  have p: "2 ^ 52 * pow2 (binade x - 52) = pow2 (binade x)"
    "2 ^ 53 * pow2 (binade x - 52) = pow2 (binade x + 1)"
    using pow2_add [of 52 "binade x - 52"] pow2_add [of 53 "binade x - 52"]
    by (simp_all add: pow2_numeral add.commute)
  have nn: "0 \<le> pow2 (binade x - 52)" by (rule less_imp_le [OF pow2_pos])
  have "(2::real) ^ 52 \<le> of_int (rne (x * pow2 (52 - binade x)))"
    using m(1) by (metis of_int_le_iff of_int_numeral of_int_power)
  from mult_right_mono [OF this nn]
  show "pow2 (binade x) \<le> float64 x" by (simp only: p(1) float64_pos [OF assms])
  have "of_int (rne (x * pow2 (52 - binade x))) \<le> (2::real) ^ 53"
    using m(2) by (metis of_int_le_iff of_int_numeral of_int_power)
  from mult_right_mono [OF this nn]
  show "float64 x \<le> pow2 (binade x + 1)" by (simp only: p(2) float64_pos [OF assms])
qed

lemma float64_mono:
  assumes "0 \<le> x" "x \<le> y"
  shows "float64 x \<le> float64 y"
proof (cases "x = 0")
  case True
  show ?thesis
  proof (cases "y = 0")
    case False
    with assms have "0 < y" by simp
    from float64_range(1) [OF this] pow2_pos [of "binade y"] have "0 < float64 y" by linarith
    then show ?thesis by (simp add: True)
  qed (simp add: True)
next
  case False
  with assms have x: "0 < x" and y: "0 < y" by simp_all
  note bx = binade_bounds [OF x] and b = binade_bounds [OF y]
  from bx(1) assms(2) b(2) have "pow2 (binade x) < pow2 (binade y + 1)" by linarith
  then have le: "binade x \<le> binade y" by simp
  show ?thesis
  proof (cases "binade x = binade y")
    case True
    have "x * pow2 (52 - binade y) \<le> y * pow2 (52 - binade y)"
      using assms(2) by (intro mult_right_mono) simp_all
    from rne_mono [OF this]
    have "of_int (rne (x * pow2 (52 - binade y))) * pow2 (binade y - 52)
            \<le> of_int (rne (y * pow2 (52 - binade y))) * pow2 (binade y - 52)"
      by (intro mult_right_mono) simp_all
    then show ?thesis using x y True by (simp add: float64_pos)
  next
    case False
    with le have "binade x + 1 \<le> binade y" by simp
    then have "pow2 (binade x + 1) \<le> pow2 (binade y)" by simp
    with float64_range(2) [OF x] float64_range(1) [OF y] show ?thesis by linarith
  qed
qed

lemma float64_exact:
  assumes "2 ^ 52 \<le> M" "M < 2 ^ 53"
  shows "float64 (of_int M * pow2 k) = of_int M * pow2 k"
proof -
  have M: "(2::real) ^ 52 \<le> of_int M" "of_int M < (2::real) ^ 53"
    using assms by (metis of_int_le_iff of_int_numeral of_int_power,
        metis of_int_less_iff of_int_numeral of_int_power)
  then have pos: "0 < of_int M * pow2 k" by (intro mult_pos_pos) simp_all
  have "pow2 (52 + k) \<le> of_int M * pow2 k"
    unfolding pow2_add using M(1) by (intro mult_right_mono) (simp_all add: pow2_numeral)
  moreover have "of_int M * pow2 k < pow2 (52 + k + 1)"
  proof -
    have "of_int M * pow2 k < 2 ^ 53 * pow2 k" using M(2) by (intro mult_strict_right_mono) simp_all
    also have "\<dots> = pow2 (53 + k)" unfolding pow2_add by (simp add: pow2_numeral)
    finally show ?thesis by (simp add: add.commute add.left_commute)
  qed
  ultimately have e: "binade (of_int M * pow2 k) = 52 + k" by (rule binade_unique)
  have c: "of_int M * pow2 k * pow2 (- k) = of_int M"
    by (simp add: mult.assoc pow2_cancel)
  have d: "52 - (52 + k) = - k" "52 + k - 52 = k" by simp_all
  show ?thesis unfolding float64_pos [OF pos] e d c rne_of_int ..
qed

lemma float64_double:
  assumes "0 \<le> x"
  shows "float64 (2 * x) = 2 * float64 x"
proof (cases "x = 0")
  case False
  with assms have x: "0 < x" by simp
  note b = binade_bounds [OF x]
  have p: "pow2 (binade x + 1) = 2 * pow2 (binade x)" "pow2 (binade x + 1 + 1) = 2 * pow2 (binade x + 1)"
    using pow2_add [of "binade x" 1] pow2_add [of "binade x + 1" 1] by (simp_all add: pow2_numeral)
  have e: "binade (2 * x) = binade x + 1"
    using b p by (intro binade_unique) simp_all
  have q: "pow2 (52 - (binade x + 1)) = pow2 (52 - binade x) / 2"
    "pow2 (binade x + 1 - 52) = 2 * pow2 (binade x - 52)"
    using pow2_add [of "52 - (binade x + 1)" 1] pow2_add [of "binade x - 52" 1]
    by (simp_all add: pow2_numeral add.commute)
  have x2: "0 < 2 * x" using x by simp
  show ?thesis unfolding float64_pos [OF x2] float64_pos [OF x] e q by simp
qed simp

lemma float64_int:
  assumes "0 \<le> n" "n \<le> 2 ^ 53"
  shows "float64 (of_int n) = of_int n"
proof -
  consider "n = 0" | "n = 2 ^ 53" | "0 < n" "n < 2 ^ 53" using assms by linarith
  then show ?thesis
  proof cases
    case 1
    then show ?thesis by simp
  next
    case 2
    from float64_exact [of "2 ^ 52" 1] show ?thesis by (simp add: 2 pow2_numeral)
  next
    case 3
    define B where "B = bitlen n"
    from bitlen_bounds [OF 3(1)] have b: "2 ^ nat (B - 1) \<le> n" "n < 2 ^ nat B" by (simp_all add: B_def)
    have b1: "1 \<le> B" using 3(1) bitlen_eq_zero_iff [of n] bitlen_nonneg [of n] by (simp add: B_def)
    have "(2::int) ^ nat (B - 1) < 2 ^ 53" using b(1) 3(2) by linarith
    from power_less_imp_less_exp [OF _ this] have "nat (B - 1) < 53" by simp
    then have b53: "B \<le> 53" by simp
    define M where "M = n * 2 ^ nat (53 - B)"
    have s: "nat (B - 1) + nat (53 - B) = 52" "nat B + nat (53 - B) = 53" using b1 b53 by simp_all
    have "2 ^ nat (B - 1) * 2 ^ nat (53 - B) \<le> M"
      unfolding M_def using b(1) by (intro mult_right_mono) simp_all
    then have M1: "2 ^ 52 \<le> M" unfolding power_add [symmetric] s by simp
    have "M < 2 ^ nat B * 2 ^ nat (53 - B)"
      unfolding M_def using b(2) by (intro mult_strict_right_mono) simp_all
    then have M2: "M < 2 ^ 53" unfolding power_add [symmetric] s by simp
    have "pow2 (- (53 - B)) = 1 / 2 ^ nat (53 - B)" using b53 by (intro pow2_neg) simp
    then have "of_int M * pow2 (- (53 - B)) = of_int n"
      by (simp only: M_def) simp
    with float64_exact [OF M1 M2, of "- (53 - B)"] show ?thesis by simp
  qed
qed

subsection \<open>The effective weight\<close>

lemma float64_one [simp]: "float64 1 = 1"
  using float64_int [of 1] by simp

lemma float64_two [simp]: "float64 2 = 2"
  using float64_int [of 2] by simp

lemma float64_nonneg: "0 \<le> x \<Longrightarrow> 0 \<le> float64 x"
  using float64_mono [of 0 x] by simp

lemma trunc_mono:
  assumes "x \<le> y"
  shows "trunc x \<le> trunc y"
proof (cases "0 \<le> x")
  case True
  with assms floor_mono [OF assms] show ?thesis by (simp add: trunc_def)
next
  case False
  then have x: "\<lceil>x\<rceil> \<le> 0" "trunc x = \<lceil>x\<rceil>" by (simp_all add: ceiling_le_iff trunc_def)
  show ?thesis
  proof (cases "0 \<le> y")
    case True
    then have "0 \<le> \<lfloor>y\<rfloor>" "trunc y = \<lfloor>y\<rfloor>" by (simp_all add: trunc_def)
    with x show ?thesis by linarith
  next
    case False
    then have "trunc y = \<lceil>y\<rceil>" by (simp add: trunc_def)
    with x(2) ceiling_mono [OF assms] show ?thesis by simp
  qed
qed

lemma trunc_of_int [simp]: "trunc (of_int n) = n"
  by (simp add: trunc_def)

lemma eff_factor:
  assumes "0 < monthly" "0 \<le> r"
  defines "eff0 \<equiv> float64 (1 + float64 (float64 (of_int r) / float64 (of_int monthly)))"
  shows "1 \<le> eff0"
    and "r = 0 \<Longrightarrow> eff0 = 1"
    and "monthly \<le> r \<Longrightarrow> 2 \<le> eff0"
    and "r \<le> r' \<Longrightarrow>
           eff0 \<le> float64 (1 + float64 (float64 (of_int r') / float64 (of_int monthly)))"
proof -
  have b: "1 \<le> float64 (of_int monthly)"
    using float64_mono [of 1 "of_int monthly"] assms(1) by simp
  have a: "0 \<le> float64 (of_int r)" using assms(2) by (intro float64_nonneg) simp
  have q: "0 \<le> float64 (float64 (of_int r) / float64 (of_int monthly))"
    using a b by (intro float64_nonneg) simp
  show "1 \<le> eff0"
    unfolding eff0_def using float64_mono [of 1 "1 + float64 (float64 (of_int r) / float64 (of_int monthly))"] q
    by simp
  show "eff0 = 1" if "r = 0" unfolding eff0_def that by simp
  show "2 \<le> eff0" if "monthly \<le> r"
  proof -
    have "float64 (of_int monthly) \<le> float64 (of_int r)"
      using that assms(1) by (intro float64_mono) simp_all
    then have "1 \<le> float64 (of_int r) / float64 (of_int monthly)" using b by simp
    from float64_mono [OF _ this] have "1 \<le> float64 (float64 (of_int r) / float64 (of_int monthly))"
      by simp
    then have "2 \<le> 1 + float64 (float64 (of_int r) / float64 (of_int monthly))" by simp
    from float64_mono [OF _ this] show ?thesis unfolding eff0_def by simp
  qed
  show "eff0 \<le> float64 (1 + float64 (float64 (of_int r') / float64 (of_int monthly)))" if "r \<le> r'"
  proof -
    have "float64 (of_int r) \<le> float64 (of_int r')"
      using that assms(2) by (intro float64_mono) simp_all
    then have "float64 (of_int r) / float64 (of_int monthly) \<le> float64 (of_int r') / float64 (of_int monthly)"
      using b by (intro divide_right_mono) simp_all
    moreover have "0 \<le> float64 (of_int r) / float64 (of_int monthly)" using a b by simp
    ultimately have "float64 (float64 (of_int r) / float64 (of_int monthly))
                       \<le> float64 (float64 (of_int r') / float64 (of_int monthly))"
      by (intro float64_mono)
    then have "1 + float64 (float64 (of_int r) / float64 (of_int monthly))
                 \<le> 1 + float64 (float64 (of_int r') / float64 (of_int monthly))" by simp
    moreover have "0 \<le> 1 + float64 (float64 (of_int r) / float64 (of_int monthly))" using q by simp
    ultimately show ?thesis unfolding eff0_def by (intro float64_mono)
  qed
qed

lemma scaled_weight:
  assumes w: "0 < w" "w \<le> 2 ^ 53" and e: "1 \<le> eff" "eff \<le> 2"
  shows "w \<le> trunc (float64 (float64 (of_int w) * eff))"
    and "trunc (float64 (float64 (of_int w) * eff)) \<le> 2 * w"
    and "eff = 1 \<Longrightarrow> trunc (float64 (float64 (of_int w) * eff)) = w"
    and "eff = 2 \<Longrightarrow> trunc (float64 (float64 (of_int w) * eff)) = 2 * w"
proof -
  have W: "float64 (of_int w) = of_int w" using w by (intro float64_int) simp_all
  have W2: "float64 (2 * of_int w) = 2 * of_int w"
    using float64_double [of "of_int w"] w W by simp
  have lo: "of_int w \<le> float64 (of_int w * eff)"
  proof -
    have "of_int w \<le> of_int w * eff" using w(1) e(1) by (simp add: mult_le_cancel_left1)
    from float64_mono [OF _ this] w(1) W show ?thesis by simp
  qed
  have hi: "float64 (of_int w * eff) \<le> 2 * of_int w"
  proof -
    have "of_int w * eff \<le> 2 * of_int w" using w(1) e(2) by (simp add: mult.commute)
    moreover have "0 \<le> of_int w * eff" using w(1) e(1) by simp
    ultimately have "float64 (of_int w * eff) \<le> float64 (2 * of_int w)" by (intro float64_mono)
    with W2 show ?thesis by simp
  qed
  have nn: "0 \<le> float64 (of_int w * eff)" using lo w(1) by linarith
  then have t: "trunc (float64 (of_int w * eff)) = \<lfloor>float64 (of_int w * eff)\<rfloor>"
    by (simp add: trunc_def)
  show "w \<le> trunc (float64 (float64 (of_int w) * eff))"
    unfolding W t using lo by (simp add: le_floor_iff)
  have "\<lfloor>float64 (of_int w * eff)\<rfloor> \<le> \<lfloor>real_of_int (2 * w)\<rfloor>"
    using hi by (intro floor_mono) simp
  then have "\<lfloor>float64 (of_int w * eff)\<rfloor> \<le> 2 * w" by (simp only: floor_of_int)
  then show "trunc (float64 (float64 (of_int w) * eff)) \<le> 2 * w"
    unfolding W t .
  show "trunc (float64 (float64 (of_int w) * eff)) = w" if "eff = 1"
    unfolding W that using w(1) W by (simp add: trunc_def)
  show "trunc (float64 (float64 (of_int w) * eff)) = 2 * w" if "eff = 2"
  proof -
    have "float64 (of_int w * 2) = of_int (2 * w)" using W2 by (simp add: mult.commute)
    then show ?thesis unfolding W that by (simp only: trunc_of_int)
  qed
qed

lemma effWeight_bounds:
  assumes "0 < key_Weight k" "key_Weight k \<le> 2 ^ 53"
  shows "key_Weight k \<le> effWeight k" and "effWeight k \<le> 2 * key_Weight k"
proof -
  have "key_Weight k \<le> effWeight k \<and> effWeight k \<le> 2 * key_Weight k"
  proof (cases "key_MonthlyQuota k > 0 \<and> key_RemainingQuota k \<ge> 0")
    case False
    with assms show ?thesis by (auto simp: effWeight_def)
  next
    case True
    define eff0 where "eff0 = float64 (1 + float64 (float64 (of_int (key_RemainingQuota k))
                                             / float64 (of_int (key_MonthlyQuota k))))"
    define eff where "eff = (if eff0 > 2 then 2 else eff0)"
    define x where "x = trunc (float64 (float64 (of_int (key_Weight k)) * eff))"
    from True eff_factor(1) [of "key_MonthlyQuota k" "key_RemainingQuota k"] have "1 \<le> eff0"
      by (simp add: eff0_def)
    then have e: "1 \<le> eff" "eff \<le> 2" by (auto simp: eff_def)
    note s = scaled_weight(1,2) [OF assms e]
    have "effWeight k = (if x < 1 then 1 else x)"
      using True by (simp add: effWeight_def Let_def eff0_def eff_def x_def)
    with s assms(1) show ?thesis unfolding x_def [symmetric] by auto
  qed
  then show "key_Weight k \<le> effWeight k" and "effWeight k \<le> 2 * key_Weight k" by simp_all
qed

lemma effWeight_scaling:
  assumes "0 < key_Weight k" "key_Weight k \<le> 2 ^ 53" "0 < key_MonthlyQuota k"
  shows "effWeight (k\<lparr>key_RemainingQuota := 0\<rparr>) = key_Weight k"
    and "key_MonthlyQuota k \<le> r \<Longrightarrow> effWeight (k\<lparr>key_RemainingQuota := r\<rparr>) = 2 * key_Weight k"
    and "0 \<le> r \<Longrightarrow> r \<le> r' \<Longrightarrow>
           effWeight (k\<lparr>key_RemainingQuota := r\<rparr>) \<le> effWeight (k\<lparr>key_RemainingQuota := r'\<rparr>)"
proof -
  let ?e = "\<lambda>r. float64 (1 + float64 (float64 (of_int r) / float64 (of_int (key_MonthlyQuota k))))"
  let ?c = "\<lambda>r. if ?e r > 2 then 2 else ?e r"
  let ?x = "\<lambda>r. trunc (float64 (float64 (of_int (key_Weight k)) * ?c r))"
  have eq: "effWeight (k\<lparr>key_RemainingQuota := r\<rparr>) = (if ?x r < 1 then 1 else ?x r)" if "0 \<le> r" for r
    using that assms(3) by (simp add: effWeight_def Let_def)
  have c: "1 \<le> ?c r" "?c r \<le> 2" if "0 \<le> r" for r
    using eff_factor(1) [OF assms(3) that] by auto
  have x: "key_Weight k \<le> ?x r" if "0 \<le> r" for r
    using scaled_weight(1) [OF assms(1,2) c [OF that]] .
  have val: "effWeight (k\<lparr>key_RemainingQuota := r\<rparr>) = ?x r" if "0 \<le> r" for r
    using eq [OF that] x [OF that] assms(1) by simp
  have "?c 0 = 1" using eff_factor(2) [OF assms(3), of 0] by simp
  from scaled_weight(3) [OF assms(1,2) c [of 0] this] val [of 0]
  show "effWeight (k\<lparr>key_RemainingQuota := 0\<rparr>) = key_Weight k" by simp
  show "effWeight (k\<lparr>key_RemainingQuota := r\<rparr>) = 2 * key_Weight k" if "key_MonthlyQuota k \<le> r"
  proof -
    have r: "0 \<le> r" using that assms(3) by simp
    have "2 \<le> ?e r" using eff_factor(3) [OF assms(3) r that] .
    then have "?c r = 2" by auto
    from scaled_weight(4) [OF assms(1,2) c [OF r] this] val [OF r] show ?thesis by simp
  qed
  show "effWeight (k\<lparr>key_RemainingQuota := r\<rparr>) \<le> effWeight (k\<lparr>key_RemainingQuota := r'\<rparr>)"
    if "0 \<le> r" "r \<le> r'"
  proof -
    have r': "0 \<le> r'" using that by simp
    have "?e r \<le> ?e r'" using eff_factor(4) [OF assms(3) that] .
    then have "?c r \<le> ?c r'" by auto
    moreover have W: "float64 (of_int (key_Weight k)) = of_int (key_Weight k)"
      using assms by (intro float64_int) simp_all
    ultimately have "float64 (of_int (key_Weight k)) * ?c r \<le> float64 (of_int (key_Weight k)) * ?c r'"
      using assms(1) by (intro mult_left_mono) simp_all
    moreover have "0 \<le> float64 (of_int (key_Weight k)) * ?c r"
      using W assms(1) c(1) [OF that(1)] by simp
    ultimately have "float64 (float64 (of_int (key_Weight k)) * ?c r)
                       \<le> float64 (float64 (of_int (key_Weight k)) * ?c r')"
      by (intro float64_mono)
    then have "?x r \<le> ?x r'" by (rule trunc_mono)
    then show ?thesis unfolding val [OF that(1)] val [OF r'] .
  qed
qed

subsection \<open>\<open>Reload\<close> and \<open>pick\<close>\<close>

lemma Reload_loop_filter:
  "Reload_loop strings reg ks (ks0, tot) =
     (ks0 @ map (\<lambda>k. \<lparr>wk_key = k, wk_current = 0\<rparr>) (filter (usable strings reg) ks),
      tot + sum_list (map effWeight (filter (usable strings reg) ks)))"
  by (induction ks arbitrary: ks0 tot) (auto simp: usable_def)

lemma pick_loop_keys: "pick_loop wks i best = (ks, b) \<Longrightarrow> ks = map bump wks"
  by (induction wks arbitrary: i best ks b) (auto simp: Let_def split: prod.splits)

lemma pick_loop_best:
  assumes "pick_loop wks i best = (ks, b)"
  shows "case b of
           None \<Rightarrow> best = None \<and> wks = []
         | Some (j, c) \<Rightarrow>
             (\<forall>k<length wks. wk_current (bump (wks ! k)) \<le> c) \<and>
             (\<forall>j' c'. best = Some (j', c') \<longrightarrow> c' \<le> c) \<and>
             (best = Some (j, c) \<or>
              ((\<forall>j' c'. best = Some (j', c') \<longrightarrow> c' < c) \<and>
               (\<exists>k<length wks. j = i + k \<and> c = wk_current (bump (wks ! k)) \<and>
                  (\<forall>k'<k. wk_current (bump (wks ! k')) < c))))"
  using assms
proof (induction wks arbitrary: i best ks b)
  case Nil
  then show ?case by (auto split: option.splits)
next
  case (Cons wk rest)
  define best' where "best' = (case best of
                     None \<Rightarrow> Some (i, wk_current (bump wk))
                   | Some (j, c) \<Rightarrow> if wk_current (bump wk) > c then Some (i, wk_current (bump wk)) else best)"
  obtain rest' where r: "pick_loop rest (i + 1) best' = (rest', b)"
    using Cons.prems by (auto simp: best'_def Let_def split: prod.splits)
  from best'_def obtain j0 c0 where b0: "best' = Some (j0, c0)"
    by (auto split: option.splits if_splits)
  note IH = Cons.IH [OF r]
  from IH b0 obtain j c where b: "b = Some (j, c)" by (cases b) auto
  from IH b have all: "\<forall>k<length rest. wk_current (bump (rest ! k)) \<le> c"
    and ge: "c0 \<le> c"
    and disj: "best' = Some (j, c) \<or>
              (c0 < c \<and> (\<exists>k<length rest. j = i + 1 + k \<and> c = wk_current (bump (rest ! k)) \<and>
                  (\<forall>k'<k. wk_current (bump (rest ! k')) < c)))"
    using b0 by auto
  have "(best' = Some (i, wk_current (bump wk)) \<and>
           (\<forall>j' c'. best = Some (j', c') \<longrightarrow> c' < wk_current (bump wk))) \<or>
        (best' = best \<and> wk_current (bump wk) \<le> c0)"
  proof (cases best)
    case None
    then show ?thesis by (simp add: best'_def)
  next
    case (Some p)
    obtain j1 c1 where p: "p = (j1, c1)" by (cases p)
    show ?thesis
    proof (cases "wk_current (bump wk) > c1")
      case True
      then show ?thesis using Some p by (simp add: best'_def)
    next
      case False
      then have "best' = best" using Some p by (simp add: best'_def)
      moreover from this b0 Some p have "c0 = c1" by simp
      ultimately show ?thesis using False by simp
    qed
  qed
  then consider (new) "best' = Some (i, wk_current (bump wk))"
      "\<forall>j' c'. best = Some (j', c') \<longrightarrow> c' < wk_current (bump wk)"
    | (old) "best' = best" "wk_current (bump wk) \<le> c0"
    by blast
  then show ?case
  proof cases
    case new
    then have c0: "c0 = wk_current (bump wk)" "j0 = i" using b0 by simp_all
    have head: "wk_current (bump wk) \<le> c" using ge c0 by simp
    have A: "\<forall>k<length (wk # rest). wk_current (bump ((wk # rest) ! k)) \<le> c"
      using all head by (auto simp: nth_Cons split: nat.splits)
    have B: "\<forall>j' c'. best = Some (j', c') \<longrightarrow> c' \<le> c"
      using new(2) head by fastforce
    from disj have C: "(\<forall>j' c'. best = Some (j', c') \<longrightarrow> c' < c) \<and>
               (\<exists>k<length (wk # rest). j = i + k \<and> c = wk_current (bump ((wk # rest) ! k)) \<and>
                  (\<forall>k'<k. wk_current (bump ((wk # rest) ! k')) < c))"
    proof
      assume "best' = Some (j, c)"
      then have "j = i" "c = wk_current (bump wk)" using new(1) by simp_all
      then have "(\<exists>k<length (wk # rest). j = i + k \<and> c = wk_current (bump ((wk # rest) ! k)) \<and>
                  (\<forall>k'<k. wk_current (bump ((wk # rest) ! k')) < c))"
        by (intro exI [of _ 0]) simp
      moreover have "\<forall>j' c'. best = Some (j', c') \<longrightarrow> c' < c"
        using new(2) \<open>c = wk_current (bump wk)\<close> by simp
      ultimately show ?thesis by blast
    next
      assume "c0 < c \<and> (\<exists>k<length rest. j = i + 1 + k \<and> c = wk_current (bump (rest ! k)) \<and>
                  (\<forall>k'<k. wk_current (bump (rest ! k')) < c))"
      then obtain k where k: "c0 < c" "k < length rest" "j = i + 1 + k" "c = wk_current (bump (rest ! k))"
        "\<forall>k'<k. wk_current (bump (rest ! k')) < c" by blast
      have "\<forall>k'<Suc k. wk_current (bump ((wk # rest) ! k')) < c"
        using k(1,5) c0 by (auto simp: nth_Cons split: nat.splits)
      then have "(\<exists>k<length (wk # rest). j = i + k \<and> c = wk_current (bump ((wk # rest) ! k)) \<and>
                  (\<forall>k'<k. wk_current (bump ((wk # rest) ! k')) < c))"
        using k(2,3,4) by (intro exI [of _ "Suc k"]) simp
      moreover have "\<forall>j' c'. best = Some (j', c') \<longrightarrow> c' < c"
        using new(2) k(1) c0 by fastforce
      ultimately show ?thesis by blast
    qed
    from A B C show ?thesis unfolding b by simp
  next
    case old
    have head: "wk_current (bump wk) \<le> c" using ge old(2) by simp
    have A: "\<forall>k<length (wk # rest). wk_current (bump ((wk # rest) ! k)) \<le> c"
      using all head by (auto simp: nth_Cons split: nat.splits)
    have B: "\<forall>j' c'. best = Some (j', c') \<longrightarrow> c' \<le> c"
      using old(1) b0 ge by auto
    from disj have C: "best = Some (j, c) \<or> ((\<forall>j' c'. best = Some (j', c') \<longrightarrow> c' < c) \<and>
               (\<exists>k<length (wk # rest). j = i + k \<and> c = wk_current (bump ((wk # rest) ! k)) \<and>
                  (\<forall>k'<k. wk_current (bump ((wk # rest) ! k')) < c)))"
    proof
      assume "best' = Some (j, c)"
      then show ?thesis using old(1) by simp
    next
      assume "c0 < c \<and> (\<exists>k<length rest. j = i + 1 + k \<and> c = wk_current (bump (rest ! k)) \<and>
                  (\<forall>k'<k. wk_current (bump (rest ! k')) < c))"
      then obtain k where k: "c0 < c" "k < length rest" "j = i + 1 + k" "c = wk_current (bump (rest ! k))"
        "\<forall>k'<k. wk_current (bump (rest ! k')) < c" by blast
      have "\<forall>k'<Suc k. wk_current (bump ((wk # rest) ! k')) < c"
        using k(1,5) old(2) by (auto simp: nth_Cons split: nat.splits)
      then have "(\<exists>k<length (wk # rest). j = i + k \<and> c = wk_current (bump ((wk # rest) ! k)) \<and>
                  (\<forall>k'<k. wk_current (bump ((wk # rest) ! k')) < c))"
        using k(2,3,4) by (intro exI [of _ "Suc k"]) simp
      moreover have "\<forall>j' c'. best = Some (j', c') \<longrightarrow> c' < c"
        using old(1) b0 k(1) by auto
      ultimately show ?thesis by blast
    qed
    from A B C show ?thesis unfolding b by simp
  qed
qed

lemma pick_nonempty:
  assumes "keys m \<noteq> []"
  shows "\<exists>i<length (keys m). fst (pick m) = Some i \<and>
        (\<forall>j<length (keys m). wk_current (bump (keys m ! j)) \<le> wk_current (bump (keys m ! i))) \<and>
        (\<forall>j<i. wk_current (bump (keys m ! j)) < wk_current (bump (keys m ! i))) \<and>
        snd (pick m) = m\<lparr>keys := (map bump (keys m))
                          [i := (bump (keys m ! i))\<lparr>wk_current := wk_current (bump (keys m ! i)) - total m\<rparr>]\<rparr>"
proof -
  obtain ks b where pl: "pick_loop (keys m) 0 None = (ks, b)" by (cases "pick_loop (keys m) 0 None")
  from pick_loop_keys [OF pl] have ks: "ks = map bump (keys m)" .
  from pick_loop_best [OF pl] assms obtain i c where b: "b = Some (i, c)"
    by (cases b) auto
  from pick_loop_best [OF pl] b have
    le: "\<forall>k<length (keys m). wk_current (bump (keys m ! k)) \<le> c" and
    ex: "\<exists>k<length (keys m). i = 0 + k \<and> c = wk_current (bump (keys m ! k)) \<and>
                  (\<forall>k'<k. wk_current (bump (keys m ! k')) < c)"
    by auto
  from ex have i: "i < length (keys m)" "c = wk_current (bump (keys m ! i))"
    "\<forall>k'<i. wk_current (bump (keys m ! k')) < c" by auto
  have "pick m = (Some i, m\<lparr>keys := ks[i := (ks ! i)\<lparr>wk_current := wk_current (ks ! i) - total m\<rparr>]\<rparr>)"
    using assms by (simp add: pick_def pl b)
  then have "fst (pick m) = Some i"
    "snd (pick m) = m\<lparr>keys := (map bump (keys m))
                          [i := (bump (keys m ! i))\<lparr>wk_current := wk_current (bump (keys m ! i)) - total m\<rparr>]\<rparr>"
    using ks i(1) by simp_all
  with i le show ?thesis by auto
qed

text \<open>
  C8. \<open>Reload\<close> retains, in the order of the fetched list and with accumulator 0,
  exactly the keys that are active, have quota, have a positive weight and name a
  registered provider (whatever \<open>strings.TrimSpace\<close> and \<open>strings.ToLower\<close> do to the
  name); \<open>total\<close> is the sum of their effective weights. The effective weight of a
  retained key with a weight of at most \<open>2^53\<close>, as \<open>float64\<close> arithmetic computes it,
  lies between its weight and twice its weight; for such a weight and a positive monthly
  quota it is the weight itself when nothing of the quota remains, twice the weight when
  the whole quota remains, and it does not decrease when the remaining quota grows. A
  selection step \<open>pick\<close> on a manager with keys increases every accumulator (\<open>bump\<close>:
  by the weight of its key), chooses the first key whose increased accumulator is the
  highest, and subtracts \<open>total\<close> from the accumulator of the chosen key.
\<close>

theorem C8_reload_and_pick:
  "map wk_key (keys (Reload strings reg ks m)) = filter (usable strings reg) ks \<and>
   map wk_current (keys (Reload strings reg ks m)) = replicate (length (filter (usable strings reg) ks)) 0 \<and>
   total (Reload strings reg ks m) = sum_list (map effWeight (filter (usable strings reg) ks)) \<and>
   (\<forall>k \<in> set (filter (usable strings reg) ks).
      key_Weight k \<le> 2 ^ 53 \<longrightarrow> key_Weight k \<le> effWeight k \<and> effWeight k \<le> 2 * key_Weight k) \<and>
   (0 < key_Weight k0 \<and> key_Weight k0 \<le> 2 ^ 53 \<and> 0 < key_MonthlyQuota k0 \<longrightarrow>
      effWeight (k0\<lparr>key_RemainingQuota := 0\<rparr>) = key_Weight k0 \<and>
      (\<forall>r\<ge>key_MonthlyQuota k0. effWeight (k0\<lparr>key_RemainingQuota := r\<rparr>) = 2 * key_Weight k0) \<and>
      (\<forall>r r'. 0 \<le> r \<and> r \<le> r' \<longrightarrow>
         effWeight (k0\<lparr>key_RemainingQuota := r\<rparr>) \<le> effWeight (k0\<lparr>key_RemainingQuota := r'\<rparr>))) \<and>
   (keys m' \<noteq> [] \<longrightarrow>
      (\<exists>i<length (keys m'). fst (pick m') = Some i \<and>
        (\<forall>j<length (keys m'). wk_current (bump (keys m' ! j)) \<le> wk_current (bump (keys m' ! i))) \<and>
        (\<forall>j<i. wk_current (bump (keys m' ! j)) < wk_current (bump (keys m' ! i))) \<and>
        snd (pick m') = m'\<lparr>keys := (map bump (keys m'))
                          [i := (bump (keys m' ! i))\<lparr>wk_current := wk_current (bump (keys m' ! i)) - total m'\<rparr>]\<rparr>))"
proof -
  have r: "Reload strings reg ks m =
             m\<lparr>keys := map (\<lambda>k. \<lparr>wk_key = k, wk_current = 0\<rparr>) (filter (usable strings reg) ks),
               total := sum_list (map effWeight (filter (usable strings reg) ks))\<rparr>"
    by (simp add: Reload_def Reload_loop_filter)
  have a: "map wk_key (keys (Reload strings reg ks m)) = filter (usable strings reg) ks"
    unfolding r by (simp add: comp_def)
  have b: "map wk_current (keys (Reload strings reg ks m))
             = replicate (length (filter (usable strings reg) ks)) 0"
    unfolding r by (simp add: comp_def map_replicate_const)
  have c: "total (Reload strings reg ks m) = sum_list (map effWeight (filter (usable strings reg) ks))"
    unfolding r by simp
  have d: "\<forall>k \<in> set (filter (usable strings reg) ks).
      key_Weight k \<le> 2 ^ 53 \<longrightarrow> key_Weight k \<le> effWeight k \<and> effWeight k \<le> 2 * key_Weight k"
    using effWeight_bounds by (simp add: usable_def)
  have e: "0 < key_Weight k0 \<and> key_Weight k0 \<le> 2 ^ 53 \<and> 0 < key_MonthlyQuota k0 \<longrightarrow>
      effWeight (k0\<lparr>key_RemainingQuota := 0\<rparr>) = key_Weight k0 \<and>
      (\<forall>r\<ge>key_MonthlyQuota k0. effWeight (k0\<lparr>key_RemainingQuota := r\<rparr>) = 2 * key_Weight k0) \<and>
      (\<forall>r r'. 0 \<le> r \<and> r \<le> r' \<longrightarrow>
         effWeight (k0\<lparr>key_RemainingQuota := r\<rparr>) \<le> effWeight (k0\<lparr>key_RemainingQuota := r'\<rparr>))"
    using effWeight_scaling [of k0] by blast
  from a b c d e pick_nonempty [of m'] show ?thesis by blast
qed

text \<open>
  The claim C8 as it is written fails twice. With only the provider \<open>baidu\<close>
  registered, \<open>Reload\<close> drops \<open>key2\<close>, which is active, has quota and has a positive
  weight. And \<open>pick\<close> adds the weight of a key to its accumulator, not the effective
  weight that \<open>total\<close> sums: for \<open>key1\<close> alone (weight 3, effective weight 4,
  accumulator 0 after \<open>Reload\<close>) the accumulator after one selection is \<open>0 + 3 - 4\<close>,
  where the claim gives \<open>0 + 4 - 4\<close>.
\<close>

theorem C8_claim_counterexample:
  "map wk_key (keys (Reload ascii_strings [''baidu''] [key1, key2] manager0)) = [key1] \<and>
   key_IsActive key2 \<and> key_HasQuota key2 \<and> 0 < key_Weight key2 \<and>
   key_Weight key1 = 3 \<and> effWeight key1 = 4 \<and>
   total (Reload ascii_strings [''baidu''] [key1] manager0) = 4 \<and>
   map wk_current (keys (Reload ascii_strings [''baidu''] [key1] manager0)) = [0] \<and>
   map wk_current (keys (snd (pick (Reload ascii_strings [''baidu''] [key1] manager0)))) = [- 1]"
proof -
  have e: "effWeight key1 = 4" by code_simp
  have u: "usable ascii_strings [''baidu''] key1" "\<not> usable ascii_strings [''baidu''] key2"
    by code_simp+
  have r2: "Reload ascii_strings [''baidu''] [key1, key2] manager0
              = \<lparr>keys = [\<lparr>wk_key = key1, wk_current = 0\<rparr>], total = 4\<rparr>"
    using u e by (simp add: Reload_def Reload_loop_filter manager0_def)
  have r1: "Reload ascii_strings [''baidu''] [key1] manager0
              = \<lparr>keys = [\<lparr>wk_key = key1, wk_current = 0\<rparr>], total = 4\<rparr>"
    using u e by (simp add: Reload_def Reload_loop_filter manager0_def)
  have p: "map wk_current (keys (snd (pick \<lparr>keys = [\<lparr>wk_key = key1, wk_current = 0\<rparr>], total = 4\<rparr>))) = [- 1]"
    by (simp add: pick_def bump_def Let_def key1_def)
  have k: "key_IsActive key2 \<and> key_HasQuota key2 \<and> 0 < key_Weight key2 \<and> key_Weight key1 = 3"
    by (simp add: key1_def key2_def)
  show ?thesis unfolding r1 r2 p e using k by simp
qed

theorem C8_reload_and_pick_witness:
  "map wk_key (keys (Reload ascii_strings [''baidu'', ''aliyun''] [key1, key2] manager0)) = [key1, key2] \<and>
   total (Reload ascii_strings [''baidu'', ''aliyun''] [key1, key2] manager0) = 6 \<and>
   key_Weight key2 \<le> effWeight key2 \<and> effWeight key2 \<le> 2 * key_Weight key2 \<and>
   effWeight (key1\<lparr>key_RemainingQuota := 0\<rparr>) = 3 \<and>
   effWeight (key1\<lparr>key_RemainingQuota := 1000\<rparr>) = 6 \<and>
   effWeight (key1\<lparr>key_RemainingQuota := 500\<rparr>) \<le> effWeight (key1\<lparr>key_RemainingQuota := 700\<rparr>) \<and>
   pick (Reload ascii_strings [''baidu'', ''aliyun''] [key1, key2] manager0)
     = (Some 0, \<lparr>keys = [\<lparr>wk_key = key1, wk_current = - 3\<rparr>, \<lparr>wk_key = key2, wk_current = 1\<rparr>], total = 6\<rparr>) \<and>
   total (Reload ascii_strings [''baidu''] [key3] manager0) = 14 \<and>
   key_Weight key3 = 9"
proof -
  let ?m = "Reload ascii_strings [''baidu'', ''aliyun''] [key1, key2] manager0"
  have u: "filter (usable ascii_strings [''baidu'', ''aliyun'']) [key1, key2] = [key1, key2]"
    by code_simp
  have u3: "filter (usable ascii_strings [''baidu'']) [key3] = [key3]"
    by code_simp
  have e: "effWeight key1 = 4" "effWeight key2 = 2" "effWeight key3 = 14"
    by code_simp+
  have k1: "0 < key_Weight key1 \<and> key_Weight key1 \<le> 2 ^ 53 \<and> 0 < key_MonthlyQuota key1"
    "key_MonthlyQuota key1 = 1000" "key_Weight key1 = 3" "key_Weight key2 \<le> 2 ^ 53"
    "key_Weight key3 = 9"
    by (simp_all add: key1_def key2_def key3_def)
  note w = C8_reload_and_pick [where strings = ascii_strings and reg = "[''baidu'', ''aliyun'']"
      and ks = "[key1, key2]" and m = manager0 and m' = ?m and ?k0.0 = key1]
  note w3 = C8_reload_and_pick [where strings = ascii_strings and reg = "[''baidu'']"
      and ks = "[key3]" and m = manager0 and m' = ?m and ?k0.0 = key1]
  from w have a: "map wk_key (keys ?m) = [key1, key2]" and c: "total ?m = 6"
    and b: "map wk_current (keys ?m) = [0, 0]"
    unfolding u using e by (simp_all add: numeral_2_eq_2)
  from w3 have c3: "total (Reload ascii_strings [''baidu''] [key3] manager0) = 14"
    unfolding u3 using e by simp
  from w k1(4) have d: "key_Weight key2 \<le> effWeight key2 \<and> effWeight key2 \<le> 2 * key_Weight key2"
    unfolding u by simp
  from w k1(1) have s: "effWeight (key1\<lparr>key_RemainingQuota := 0\<rparr>) = key_Weight key1"
    "\<forall>r\<ge>key_MonthlyQuota key1. effWeight (key1\<lparr>key_RemainingQuota := r\<rparr>) = 2 * key_Weight key1"
    "\<forall>r r'. 0 \<le> r \<and> r \<le> r' \<longrightarrow>
         effWeight (key1\<lparr>key_RemainingQuota := r\<rparr>) \<le> effWeight (key1\<lparr>key_RemainingQuota := r'\<rparr>)"
    by blast+
  from s(1) k1(3) have s1: "effWeight (key1\<lparr>key_RemainingQuota := 0\<rparr>) = 3" by simp
  from s(2) k1(2,3) have s2: "effWeight (key1\<lparr>key_RemainingQuota := 1000\<rparr>) = 6" by simp
  from s(3) have s3: "effWeight (key1\<lparr>key_RemainingQuota := 500\<rparr>) \<le> effWeight (key1\<lparr>key_RemainingQuota := 700\<rparr>)"
    by simp
  from a b have k: "keys ?m = [\<lparr>wk_key = key1, wk_current = 0\<rparr>, \<lparr>wk_key = key2, wk_current = 0\<rparr>]"
    by (cases "keys ?m") (auto intro: weightedKey.equality)
  have ne: "keys ?m \<noteq> []" using k by simp
  from w ne obtain i where i: "i < length (keys ?m)" "fst (pick ?m) = Some i"
    "\<forall>j<length (keys ?m). wk_current (bump (keys ?m ! j)) \<le> wk_current (bump (keys ?m ! i))"
    "snd (pick ?m) = ?m\<lparr>keys := (map bump (keys ?m))
                          [i := (bump (keys ?m ! i))\<lparr>wk_current := wk_current (bump (keys ?m ! i)) - total ?m\<rparr>]\<rparr>"
    by blast
  have "i = 0"
  proof (rule ccontr)
    assume "i \<noteq> 0"
    with i(1) k have "i = 1" by simp
    with i(3) k show False by (auto simp: bump_def key1_def key2_def)
  qed
  with i(2,4) k c have "fst (pick ?m) = Some 0"
    "keys (snd (pick ?m)) = [\<lparr>wk_key = key1, wk_current = - 3\<rparr>, \<lparr>wk_key = key2, wk_current = 1\<rparr>]"
    "total (snd (pick ?m)) = 6"
    by (simp_all add: bump_def key1_def key2_def)
  then have "pick ?m = (Some 0, \<lparr>keys = [\<lparr>wk_key = key1, wk_current = - 3\<rparr>, \<lparr>wk_key = key2, wk_current = 1\<rparr>], total = 6\<rparr>)"
    by (cases "pick ?m") (auto intro: OCRKeyManager.equality)
  with a c d s1 s2 s3 c3 k1(5) show ?thesis by blast
qed

section \<open>Properties of the account gate\<close>

lemma length_filter_update:
  "i < length xs \<Longrightarrow>
     length (filter P (xs[i := y])) + (if P (xs ! i) then 1 else 0)
       = length (filter P xs) + (if P y then 1 else 0)"
proof (induction xs arbitrary: i)
  case Nil
  then show ?case by simp
next
  case (Cons x xs)
  show ?case
  proof (cases i)
    case 0
    then show ?thesis by simp
  next
    case (Suc j)
    with Cons.prems have "j < length xs" by simp
    from Cons.IH [OF this] Suc show ?thesis by simp
  qed
qed

lemma step_gate_inv:
  assumes "step e s = Some s'" "gate_inv s"
  shows "gate_inv s'"
proof (cases e)
  case (Enter i)
  with assms(1) have i: "i < length (procs s)" "p_phase (procs s ! i) = NotStarted"
    by (auto simp: step_def split: if_splits)
  from assms(2) i(1) have f: "p_flow (procs s ! i) = RedeemSingleFlow"
    by (simp add: gate_inv_def list_all_length)
  with assms(1) Enter i have free: "\<not> gate_full s"
    and s': "s' = \<lparr>gate_full = True, procs = (procs s)[i := (procs s ! i)\<lparr>p_phase := InFlight\<rparr>]\<rparr>"
    by (auto simp: step_def enter_def acquireAccountGate_def split: if_splits)
  from length_filter_update [OF i(1), of "\<lambda>p. p_phase p = InFlight" "(procs s ! i)\<lparr>p_phase := InFlight\<rparr>"] i(2)
  have "in_flight s' = in_flight s + 1" by (simp add: in_flight_def s')
  moreover have "list_all (\<lambda>p. p_flow p = RedeemSingleFlow) (procs s')"
    using assms(2) f
    by (auto simp: s' gate_inv_def list_all_iff dest!: set_update_subset_insert [THEN subsetD])
  ultimately show ?thesis using assms(2) free by (simp add: gate_inv_def s')
next
  case (Leave i)
  with assms(1) have i: "i < length (procs s)" "p_phase (procs s ! i) = InFlight"
    by (auto simp: step_def split: if_splits)
  from assms(2) i(1) have f: "p_flow (procs s ! i) = RedeemSingleFlow"
    by (simp add: gate_inv_def list_all_length)
  with assms(1) Leave i have
    s': "s' = \<lparr>gate_full = False, procs = (procs s)[i := (procs s ! i)\<lparr>p_phase := Finished\<rparr>]\<rparr>"
    by (auto simp: step_def leave_def releaseAccountGate_def split: if_splits)
  from length_filter_update [OF i(1), of "\<lambda>p. p_phase p = InFlight" "(procs s ! i)\<lparr>p_phase := Finished\<rparr>"] i(2)
  have "in_flight s' + 1 = in_flight s" by (simp add: in_flight_def s')
  moreover have "in_flight s \<le> 1" using assms(2) by (simp add: gate_inv_def)
  moreover have "list_all (\<lambda>p. p_flow p = RedeemSingleFlow) (procs s')"
    using assms(2) f
    by (auto simp: s' gate_inv_def list_all_iff dest!: set_update_subset_insert [THEN subsetD])
  ultimately show ?thesis by (simp add: gate_inv_def s')
qed

lemma run_gate_inv:
  "run es s = Some s' \<Longrightarrow> gate_inv s \<Longrightarrow> gate_inv s'"
proof (induction es arbitrary: s)
  case Nil
  then show ?case by simp
next
  case (Cons e es)
  then obtain s1 where s1: "step e s = Some s1" "run es s1 = Some s'"
    by (auto split: option.splits)
  from step_gate_inv [OF s1(1) Cons.prems(2)] Cons.IH [OF s1(2)] show ?case by simp
qed

lemma single_flows_exclude_each_other:
  assumes "run es (start (replicate n RedeemSingleFlow)) = Some s"
  shows "in_flight s \<le> 1"
proof -
  have "gate_inv (start (replicate n RedeemSingleFlow))"
    by (simp add: gate_inv_def start_def in_flight_def list_all_length)
  from run_gate_inv [OF assms this] show ?thesis by (simp add: gate_inv_def split: if_splits)
qed

text \<open>
  C1. The claim says that every flow, single or batch, takes the gate first, so that no
  two flows are ever in flight together. Flows of \<open>RedeemSingle\<close> do exclude each other
  (lemma \<open>single_flows_exclude_each_other\<close>), but \<open>RedeemBatch\<close> never touches the gate:
  a batch can enter while a single flow holds the gate, and two batches can be in flight
  together.
\<close>

theorem C1_batch_ignores_gate:
  "run [Enter 0, Enter 1] (start [RedeemSingleFlow, RedeemBatchFlow])
     = Some \<lparr>gate_full = True,
             procs = [\<lparr>p_flow = RedeemSingleFlow, p_phase = InFlight\<rparr>,
                      \<lparr>p_flow = RedeemBatchFlow, p_phase = InFlight\<rparr>]\<rparr> \<and>
   map_option in_flight (run [Enter 0, Enter 1] (start [RedeemSingleFlow, RedeemBatchFlow])) = Some 2 \<and>
   map_option in_flight (run [Enter 0, Enter 1] (start [RedeemBatchFlow, RedeemBatchFlow])) = Some 2 \<and>
   run [Enter 0, Enter 1] (start [RedeemSingleFlow, RedeemSingleFlow]) = None"
  by (simp add: start_def step_def enter_def acquireAccountGate_def in_flight_def)

section \<open>The batch scheduler returns when code 40100 does not occur\<close>

text \<open>
  In contrast to C2: when no attempt returns code 40100, every pass through the loop
  either makes an attempt, which uses up budget of the attempted account, or sleeps until
  an account is ready, after which the next pass makes an attempt. So the loop is left
  after at most \<open>18 * n + 1\<close> passes for \<open>n\<close> accounts.
\<close>

lemma settle_budget:
  assumes "rr_ErrCode r \<noteq> 40100" "in_budget st" "\<not> finalized st"
      and "settle tick r p st c = (st', out, c')"
  shows "in_budget st' \<and> budget st' < budget st"
proof -
  from assms(2,3) have b: "0 \<le> cooldowns st" "cooldowns st < 3" "0 \<le> attemptsInCycle st"
    "attemptsInCycle st < 3" by (simp_all add: in_budget_def)
  then have pos: "0 < budget st" using assms(3) by (simp add: budget_def)
  consider (success) "rr_Success r"
    | (fatal) "\<not> rr_Success r" "rr_IsFatal r"
    | (busy) "\<not> rr_Success r" "\<not> rr_IsFatal r" "rr_ErrCode r = 40101"
    | (captcha) "\<not> rr_Success r" "\<not> rr_IsFatal r" "rr_ErrCode r = 40102 \<or> rr_ErrCode r = 40103"
    | (other) "\<not> rr_Success r" "\<not> rr_IsFatal r" "rr_ErrCode r \<noteq> 40101" "rr_ErrCode r \<noteq> 40102"
        "rr_ErrCode r \<noteq> 40103" "rr_ErrCode r \<noteq> 40100"
    using assms(1) by blast
  then show ?thesis
  proof cases
    case success
    from assms(4) have "finalized st'" unfolding settle_success [OF success] by auto
    with pos show ?thesis by (simp add: in_budget_def budget_def)
  next
    case fatal
    have "settle tick r p st c = (st\<lparr>finalized := True\<rparr>, [mk_tmp st r p], c)"
      using fatal by (intro settle_fatal) simp_all
    with assms(4) have "finalized st'" by auto
    with pos show ?thesis by (simp add: in_budget_def budget_def)
  next
    case busy
    from assms(4) b assms(3) show ?thesis unfolding settle_busy [OF busy]
      by (auto simp: in_budget_def budget_def split: if_splits)
  next
    case captcha
    from assms(4) b assms(3) show ?thesis unfolding settle_captcha [OF captcha]
      by (auto simp: in_budget_def budget_def split: if_splits)
  next
    case other
    from assms(4) have "finalized st'" unfolding settle_default [OF other] by auto
    with pos show ?thesis by (simp add: in_budget_def budget_def)
  qed
qed

lemma sum_list_update_nat:
  fixes f :: "'a \<Rightarrow> nat"
  shows "i < length xs \<Longrightarrow> sum_list (map f (xs[i := y])) + f (xs ! i) = sum_list (map f xs) + f y"
proof (induction xs arbitrary: i)
  case Nil
  then show ?case by simp
next
  case (Cons x xs)
  show ?case
  proof (cases i)
    case 0
    then show ?thesis by simp
  next
    case (Suc j)
    with Cons.prems have "j < length xs" by simp
    from Cons.IH [OF this] Suc show ?thesis by simp
  qed
qed

lemma batch_iter_fewer_passes:
  assumes no40100: "\<forall>k fid code. rr_ErrCode (tryOnce k fid code) \<noteq> 40100"
      and inb: "list_all in_budget (states s)"
      and it: "batch_iter tick tryOnce giftCode s = Continue s'"
  shows "list_all in_budget (states s') \<and> passes_left s' < passes_left s"
proof (cases rule: batch_iter_char [of tick tryOnce giftCode s])
  case stop
  with it show ?thesis by simp
next
  case (sleep c idx)
  with it have s': "s' = s\<lparr>clk := c\<rparr>" by simp
  have "\<not> ready_now s" using sleep(5) by (auto simp: ready_now_def list_ex_iff)
  moreover have "states s ! idx \<in> set (states s)" using sleep(2) by simp
  then have "ready_now s'" using sleep(3,4) by (auto simp: s' ready_now_def list_ex_iff)
  ultimately show ?thesis using inb by (simp add: passes_left_def s')
next
  case (attempt idx r p c st' out c' l k)
  with it have s': "s' = s\<lparr>states := (states s)[idx := st'], results := results s @ out,
                pending := pending s - int (length out), lastSwitchAt := l, clk := k,
                attempts := attempts s + 1\<rparr>" by simp
  have "rr_ErrCode r \<noteq> 40100" using no40100 attempt(3) by simp
  moreover have "in_budget (states s ! idx)"
    using inb attempt(1) by (simp add: list_all_length)
  ultimately have st': "in_budget st'" "budget st' < budget (states s ! idx)"
    using settle_budget [OF _ _ attempt(2,4)] by simp_all
  have "list_all in_budget ((states s)[idx := st'])"
    using inb st'(1) by (auto simp: list_all_iff dest!: set_update_subset_insert [THEN subsetD])
  moreover from sum_list_update_nat [OF attempt(1), of budget st'] st'(2)
  have "sum_list (map budget ((states s)[idx := st'])) < sum_list (map budget (states s))"
    by linarith
  ultimately show ?thesis by (simp add: passes_left_def s')
qed

lemma pending_has_budget:
  assumes "sched_inv accounts s" "list_all in_budget (states s)" "pending s > 0"
  shows "0 < sum_list (map budget (states s))"
proof -
  from assms(1,3) have "filter (\<lambda>st. \<not> finalized st) (states s) \<noteq> []"
    by (auto simp: sched_inv_def)
  then obtain st where st: "st \<in> set (states s)" "\<not> finalized st"
    by (auto simp: filter_empty_conv)
  with assms(2) have "in_budget st" by (simp add: list_all_iff)
  with st(2) have "0 < budget st" by (simp add: in_budget_def budget_def)
  moreover have "budget st \<le> sum_list (map budget (states s))"
    using st(1) by (simp add: member_le_sum_list)
  ultimately show ?thesis by linarith
qed

lemma batch_loop_returns:
  assumes "\<forall>k fid code. rr_ErrCode (tryOnce k fid code) \<noteq> 40100"
      and "list_all in_budget (states s)" "sched_inv accounts s" "passes_left s \<le> fuel"
  shows "\<exists>s'. batch_loop tick tryOnce giftCode fuel s = Some s'"
  using assms(2-)
proof (induction fuel arbitrary: s)
  case 0
  have "\<not> pending s > 0"
  proof
    assume "pending s > 0"
    from pending_has_budget [OF "0.prems"(2,1) this]
    have "0 < passes_left s" unfolding passes_left_def by linarith
    with "0.prems"(3) show False by simp
  qed
  then show ?case by (simp add: batch_loop.simps [of _ _ _ 0])
next
  case (Suc n)
  show ?case
  proof (cases "pending s > 0")
    case False
    then show ?thesis by (simp add: batch_loop.simps [of _ _ _ "Suc n"])
  next
    case True
    show ?thesis
    proof (cases "batch_iter tick tryOnce giftCode s")
      case Break
      with True show ?thesis by (simp add: batch_loop.simps [of _ _ _ "Suc n"])
    next
      case (Continue s1)
      from batch_iter_fewer_passes [OF assms(1) Suc.prems(1) Continue]
      have "list_all in_budget (states s1)" "passes_left s1 \<le> n" using Suc.prems(3) by simp_all
      moreover have "sched_inv accounts s1" using batch_iter_inv [OF Continue Suc.prems(2)] .
      ultimately have "\<exists>s'. batch_loop tick tryOnce giftCode n s1 = Some s'"
        by (intro Suc.IH)
      with True Continue show ?thesis by (simp add: batch_loop.simps [of _ _ _ "Suc n"])
    qed
  qed
qed

lemma init_states_budget:
  "init_states tick accounts c = (sts, c') \<Longrightarrow>
     list_all in_budget sts \<and> sum_list (map budget sts) = 9 * length accounts"
proof (induction accounts arbitrary: c sts c')
  case Nil
  then show ?case by simp
next
  case (Cons a as)
  obtain t c1 where t: "Now tick c = (t, c1)" by (cases "Now tick c")
  obtain sts1 c2 where r: "init_states tick as c1 = (sts1, c2)" by (cases "init_states tick as c1")
  from Cons.prems t r have
    "sts = \<lparr>acc = a, cooldowns = 0, attemptsInCycle = 0, nextReadyAt = t, finalized = False\<rparr> # sts1"
    by simp
  with Cons.IH [OF r] show ?case by (simp add: in_budget_def budget_def)
qed

lemma RedeemBatch_returns_without_40100:
  assumes "\<forall>k fid code. rr_ErrCode (tryOnce k fid code) \<noteq> 40100"
      and "18 * length accounts + 1 \<le> fuel"
  shows "\<exists>rs. RedeemBatch tick tryOnce fuel accounts giftCode = Some rs"
proof -
  obtain sts c where i: "init_states tick accounts \<lparr>clk_time = 0, clk_reads = 0\<rparr> = (sts, c)"
    by (cases "init_states tick accounts \<lparr>clk_time = 0, clk_reads = 0\<rparr>")
  from init_states_budget [OF i] have "list_all in_budget (states (init_sched tick accounts))"
    and "passes_left (init_sched tick accounts) \<le> 18 * length accounts + 1"
    by (simp_all add: init_sched_def i passes_left_def)
  then have "\<exists>s'. batch_loop tick tryOnce giftCode fuel (init_sched tick accounts) = Some s'"
    using assms(2) by (intro batch_loop_returns [OF assms(1) _ init_sched_inv]) simp_all
  then obtain s' where "batch_loop tick tryOnce giftCode fuel (init_sched tick accounts) = Some s'"
    by blast
  then show ?thesis by (simp add: RedeemBatch_def)
qed


section \<open>The cooldown ceiling and the fatal short-circuit in a batch run\<close>

text \<open>
  What one pass through the loop of \<open>RedeemBatch\<close> does: either it only waits (nothing
  but the clock changes), or it makes one attempt, for an account that is not finalized,
  and replaces the state of that account by what \<open>settle\<close> makes of the outcome,
  appending what \<open>settle\<close> appends. So the state of a finalized account is never
  changed again, neither by a pass nor by the rest of the loop, and no attempt is made for
  it.
\<close>

lemma batch_iter_pass:
  assumes it: "batch_iter tick tryOnce giftCode s = Continue s'"
  obtains (wait) "s' = s\<lparr>clk := clk s'\<rparr>"
    | (attempt) idx p c l where
        "idx < length (states s)" "\<not> finalized (states s ! idx)"
        "s' = s\<lparr>states := (states s)[idx := fst (settle tick (tryOnce (attempts s) (acc_FID (acc (states s ! idx))) giftCode) p (states s ! idx) c)],
                results := results s @ fst (snd (settle tick (tryOnce (attempts s) (acc_FID (acc (states s ! idx))) giftCode) p (states s ! idx) c)),
                pending := pending s - int (length (fst (snd (settle tick (tryOnce (attempts s) (acc_FID (acc (states s ! idx))) giftCode) p (states s ! idx) c)))),
                lastSwitchAt := l,
                clk := snd (snd (settle tick (tryOnce (attempts s) (acc_FID (acc (states s ! idx))) giftCode) p (states s ! idx) c)),
                attempts := attempts s + 1\<rparr>"
proof -
  obtain now c1 where n: "Now tick (clk s) = (now, c1)" by (cases "Now tick (clk s)")
  obtain pk c2 where pk: "pickNext tick now (states s) c1 = (pk, c2)"
    by (cases "pickNext tick now (states s) c1")
  show ?thesis
  proof (cases pk)
    case None
    have "batch_iter tick tryOnce giftCode s = Break"
      unfolding batch_iter_def n by (simp add: pk None)
    with it show ?thesis by simp
  next
    case (Some iw)
    obtain idx wt where iw: "iw = (idx, wt)" by (cases iw)
    from pickNext_picks_pending [of tick now "states s" c1 idx wt c2] pk Some iw
    have ok: "idx < length (states s)" "\<not> finalized (states s ! idx)" by simp_all
    show ?thesis
    proof (cases "wt > 0")
      case True
      have "batch_iter tick tryOnce giftCode s = Continue (s\<lparr>clk := Sleep wt c2\<rparr>)"
        unfolding batch_iter_def n by (simp add: pk Some iw True)
      with it have "s' = s\<lparr>clk := Sleep wt c2\<rparr>" by simp
      then have "s' = s\<lparr>clk := clk s'\<rparr>" by simp
      then show ?thesis by (rule wait)
    next
      case False
      define c3 where "c3 = (case lastSwitchAt s of
                        None \<Rightarrow> c2
                      | Some l \<Rightarrow>
                          (let (t, c) = Now tick c2; since = t - l
                           in if since < minSwitchDelay then Sleep (minSwitchDelay - since) c else c))"
      obtain stepStart c4 where t4: "Now tick c3 = (stepStart, c4)" by (cases "Now tick c3")
      obtain stepEnd c5 where t5: "Now tick c4 = (stepEnd, c5)" by (cases "Now tick c4")
      obtain switched c6 where t6: "Now tick c5 = (switched, c6)" by (cases "Now tick c5")
      define r where "r = tryOnce (attempts s) (acc_FID (acc (states s ! idx))) giftCode"
      obtain st' out c7 where st: "settle tick r ((stepEnd - stepStart) div Second) (states s ! idx) c6 = (st', out, c7)"
        by (cases "settle tick r ((stepEnd - stepStart) div Second) (states s ! idx) c6")
      have "batch_iter tick tryOnce giftCode s =
              Continue (s\<lparr>states := (states s)[idx := st'], results := results s @ out,
                pending := pending s - int (length out), lastSwitchAt := Some switched, clk := c7,
                attempts := attempts s + 1\<rparr>)"
        unfolding batch_iter_def n
        by (simp add: pk Some iw False Let_def c3_def [symmetric] t4 t5 t6 r_def [symmetric] st)
      with it have "s' = s\<lparr>states := (states s)[idx := st'], results := results s @ out,
                pending := pending s - int (length out), lastSwitchAt := Some switched, clk := c7,
                attempts := attempts s + 1\<rparr>" by simp
      with st have "s' = s\<lparr>states := (states s)[idx := fst (settle tick r ((stepEnd - stepStart) div Second) (states s ! idx) c6)],
                results := results s @ fst (snd (settle tick r ((stepEnd - stepStart) div Second) (states s ! idx) c6)),
                pending := pending s - int (length (fst (snd (settle tick r ((stepEnd - stepStart) div Second) (states s ! idx) c6)))),
                lastSwitchAt := Some switched,
                clk := snd (snd (settle tick r ((stepEnd - stepStart) div Second) (states s ! idx) c6)),
                attempts := attempts s + 1\<rparr>" by simp
      with ok show ?thesis unfolding r_def by (rule attempt)
    qed
  qed
qed

lemma batch_iter_finalized_kept:
  assumes "batch_iter tick tryOnce giftCode s = Continue s'"
  shows "length (states s') = length (states s)"
    and "i < length (states s) \<Longrightarrow> finalized (states s ! i) \<Longrightarrow> states s' ! i = states s ! i"
proof -
  from assms show "length (states s') = length (states s)"
  proof (cases rule: batch_iter_pass)
    case wait
    then have "states s' = states (s\<lparr>clk := clk s'\<rparr>)" by simp
    then show ?thesis by simp
  next
    case (attempt idx p c l)
    from arg_cong [OF attempt(3), of states] show ?thesis by simp
  qed
  from assms show "states s' ! i = states s ! i" if "i < length (states s)" "finalized (states s ! i)"
  proof (cases rule: batch_iter_pass)
    case wait
    then have "states s' = states (s\<lparr>clk := clk s'\<rparr>)" by simp
    then show ?thesis by simp
  next
    case (attempt idx p c l)
    from attempt(2) that have "idx \<noteq> i" by auto
    with arg_cong [OF attempt(3), of states] show ?thesis by simp
  qed
qed

lemma batch_loop_finalized_kept:
  assumes "batch_loop tick tryOnce giftCode fuel s = Some s'"
      and "i < length (states s)" "finalized (states s ! i)"
  shows "states s' ! i = states s ! i"
  using assms
proof (induction fuel arbitrary: s)
  case 0
  then show ?case by (simp add: batch_loop.simps [of _ _ _ 0] split: if_splits)
next
  case (Suc n)
  show ?case
  proof (cases "pending s > 0")
    case False
    with Suc.prems(1) show ?thesis by (simp add: batch_loop.simps [of _ _ _ "Suc n"])
  next
    case True
    show ?thesis
    proof (cases "batch_iter tick tryOnce giftCode s")
      case Break
      with True Suc.prems(1) show ?thesis by (simp add: batch_loop.simps [of _ _ _ "Suc n"])
    next
      case (Continue s1)
      then have l: "batch_loop tick tryOnce giftCode n s1 = Some s'"
        using True Suc.prems(1) by (simp add: batch_loop.simps [of _ _ _ "Suc n"])
      note k = batch_iter_finalized_kept [OF Continue]
      from k(2) [OF Suc.prems(2,3)] Suc.prems(3) have "finalized (states s1 ! i)" by simp
      moreover have "i < length (states s1)" using k(1) Suc.prems(2) by simp
      ultimately have "states s' ! i = states s1 ! i" using l by (intro Suc.IH)
      with k(2) [OF Suc.prems(2,3)] show ?thesis by simp
    qed
  qed
qed

lemma batch_loop_invariant:
  assumes step: "\<And>s s'. I s \<Longrightarrow> batch_iter tick tryOnce giftCode s = Continue s' \<Longrightarrow> I s'"
      and "I s" "batch_loop tick tryOnce giftCode fuel s = Some s'"
  shows "I s'"
  using assms(2,3)
proof (induction fuel arbitrary: s)
  case 0
  then show ?case by (simp add: batch_loop.simps [of _ _ _ 0] split: if_splits)
next
  case (Suc n)
  show ?case
  proof (cases "pending s > 0")
    case False
    with Suc.prems show ?thesis by (simp add: batch_loop.simps [of _ _ _ "Suc n"])
  next
    case True
    show ?thesis
    proof (cases "batch_iter tick tryOnce giftCode s")
      case Break
      with True Suc.prems show ?thesis by (simp add: batch_loop.simps [of _ _ _ "Suc n"])
    next
      case (Continue s1)
      then have l: "batch_loop tick tryOnce giftCode n s1 = Some s'"
        using True Suc.prems(2) by (simp add: batch_loop.simps [of _ _ _ "Suc n"])
      from step [OF Suc.prems(1) Continue] l show ?thesis by (rule Suc.IH)
    qed
  qed
qed

lemma sum_list_update_int:
  fixes f :: "'a \<Rightarrow> int"
  shows "i < length xs \<Longrightarrow> sum_list (map f (xs[i := y])) = sum_list (map f xs) - f (xs ! i) + f y"
proof (induction xs arbitrary: i)
  case Nil
  then show ?case by simp
next
  case (Cons x xs)
  show ?case
  proof (cases i)
    case 0
    then show ?thesis by simp
  next
    case (Suc j)
    with Cons.prems have "j < length xs" by simp
    from Cons.IH [OF this] Suc show ?thesis by simp
  qed
qed

lemma batch_iter_busy:
  assumes it: "batch_iter tick tryOnce giftCode s = Continue s'"
  shows "(states s' = states s \<and> results s' = results s \<and> pending s' = pending s \<and> attempts s' = attempts s) \<or>
         (\<exists>idx p. idx < length (states s) \<and> \<not> finalized (states s ! idx) \<and> attempts s' = attempts s + 1 \<and>
            (\<not> rr_Success (tryOnce (attempts s) (acc_FID (acc (states s ! idx))) giftCode) \<and>
             \<not> rr_IsFatal (tryOnce (attempts s) (acc_FID (acc (states s ! idx))) giftCode) \<and>
             rr_ErrCode (tryOnce (attempts s) (acc_FID (acc (states s ! idx))) giftCode) = 40101 \<longrightarrow>
               (if cooldowns (states s ! idx) + 1 \<ge> 3
                then states s' = (states s)[idx := (states s ! idx)\<lparr>cooldowns := cooldowns (states s ! idx) + 1,
                                      attemptsInCycle := 0, finalized := True\<rparr>] \<and>
                     results s' = results s @ [mk_tmp (states s ! idx) (tryOnce (attempts s) (acc_FID (acc (states s ! idx))) giftCode) p] \<and>
                     pending s' = pending s - 1
                else states s' = (states s)[idx := (states s ! idx)\<lparr>cooldowns := cooldowns (states s ! idx) + 1,
                                      attemptsInCycle := 0, nextReadyAt := clk_time (clk s') + 60 * Second\<rparr>] \<and>
                     results s' = results s \<and> pending s' = pending s)))"
  using it
proof (cases rule: batch_iter_pass)
  case wait
  then have "states s' = states (s\<lparr>clk := clk s'\<rparr>)" "results s' = results (s\<lparr>clk := clk s'\<rparr>)"
    "pending s' = pending (s\<lparr>clk := clk s'\<rparr>)" "attempts s' = attempts (s\<lparr>clk := clk s'\<rparr>)" by simp_all
  then show ?thesis by simp
next
  case (attempt idx p c l)
  let ?r = "tryOnce (attempts s) (acc_FID (acc (states s ! idx))) giftCode"
  let ?st = "states s ! idx"
  have a: "attempts s' = attempts s + 1" using arg_cong [OF attempt(3), of attempts] by simp
  have b: "states s' = (states s)[idx := fst (settle tick ?r p ?st c)]"
    using arg_cong [OF attempt(3), of states] by simp
  have d: "results s' = results s @ fst (snd (settle tick ?r p ?st c))"
    using arg_cong [OF attempt(3), of results] by simp
  have e: "pending s' = pending s - int (length (fst (snd (settle tick ?r p ?st c))))"
    using arg_cong [OF attempt(3), of pending] by simp
  have f: "clk s' = snd (snd (settle tick ?r p ?st c))"
    using arg_cong [OF attempt(3), of clk] by simp
  have "if cooldowns ?st + 1 \<ge> 3
        then states s' = (states s)[idx := ?st\<lparr>cooldowns := cooldowns ?st + 1,
                                      attemptsInCycle := 0, finalized := True\<rparr>] \<and>
             results s' = results s @ [mk_tmp ?st ?r p] \<and> pending s' = pending s - 1
        else states s' = (states s)[idx := ?st\<lparr>cooldowns := cooldowns ?st + 1,
                                      attemptsInCycle := 0, nextReadyAt := clk_time (clk s') + 60 * Second\<rparr>] \<and>
             results s' = results s \<and> pending s' = pending s"
    if busy: "\<not> rr_Success ?r" "\<not> rr_IsFatal ?r" "rr_ErrCode ?r = 40101"
    unfolding b d e f settle_busy [OF busy] by (simp add: clk_time_Now)
  with attempt(1,2) a show ?thesis by blast
qed

lemma batch_iter_fatal:
  assumes it: "batch_iter tick tryOnce giftCode s = Continue s'"
  shows "(states s' = states s \<and> results s' = results s \<and> pending s' = pending s \<and> attempts s' = attempts s) \<or>
         (\<exists>idx p. idx < length (states s) \<and> \<not> finalized (states s ! idx) \<and> attempts s' = attempts s + 1 \<and>
            (\<not> rr_Success (tryOnce (attempts s) (acc_FID (acc (states s ! idx))) giftCode) \<and>
             isFatalError (rr_ErrCode (tryOnce (attempts s) (acc_FID (acc (states s ! idx))) giftCode)) \<longrightarrow>
               states s' = (states s)[idx := (states s ! idx)\<lparr>finalized := True\<rparr>] \<and>
               results s' = results s @ [mk_tmp (states s ! idx) (tryOnce (attempts s) (acc_FID (acc (states s ! idx))) giftCode) p] \<and>
               pending s' = pending s - 1))"
  using it
proof (cases rule: batch_iter_pass)
  case wait
  then have "states s' = states (s\<lparr>clk := clk s'\<rparr>)" "results s' = results (s\<lparr>clk := clk s'\<rparr>)"
    "pending s' = pending (s\<lparr>clk := clk s'\<rparr>)" "attempts s' = attempts (s\<lparr>clk := clk s'\<rparr>)" by simp_all
  then show ?thesis by simp
next
  case (attempt idx p c l)
  let ?r = "tryOnce (attempts s) (acc_FID (acc (states s ! idx))) giftCode"
  let ?st = "states s ! idx"
  have a: "attempts s' = attempts s + 1" using arg_cong [OF attempt(3), of attempts] by simp
  have b: "states s' = (states s)[idx := fst (settle tick ?r p ?st c)]"
    using arg_cong [OF attempt(3), of states] by simp
  have d: "results s' = results s @ fst (snd (settle tick ?r p ?st c))"
    using arg_cong [OF attempt(3), of results] by simp
  have e: "pending s' = pending s - int (length (fst (snd (settle tick ?r p ?st c))))"
    using arg_cong [OF attempt(3), of pending] by simp
  have "states s' = (states s)[idx := ?st\<lparr>finalized := True\<rparr>] \<and>
        results s' = results s @ [mk_tmp ?st ?r p] \<and> pending s' = pending s - 1"
    if fatal: "\<not> rr_Success ?r" "isFatalError (rr_ErrCode ?r)"
  proof -
    have "settle tick ?r p ?st c = (?st\<lparr>finalized := True\<rparr>, [mk_tmp ?st ?r p], c)"
      using fatal by (intro settle_fatal) simp_all
    then show ?thesis unfolding b d e by simp
  qed
  with attempt(1,2) a show ?thesis by blast
qed


lemma list_all_update:
  "list_all P xs \<Longrightarrow> P y \<Longrightarrow> list_all P (xs[i := y])"
  by (auto simp: list_all_iff dest!: set_update_subset_insert [THEN subsetD])

lemma sum_list_const:
  fixes f :: "'a \<Rightarrow> int"
  shows "list_all (\<lambda>x. f x = c) xs \<Longrightarrow> sum_list (map f xs) = c * int (length xs)"
  by (induction xs) (simp_all add: algebra_simps)

lemma busy_inv_step:
  assumes busy: "\<forall>k fid code. \<not> rr_Success (tryOnce k fid code) \<and> \<not> rr_IsFatal (tryOnce k fid code) \<and>
                   rr_ErrCode (tryOnce k fid code) = 40101"
      and inv: "busy_inv s" and it: "batch_iter tick tryOnce giftCode s = Continue s'"
  shows "busy_inv s'"
proof -
  from batch_iter_busy [OF it] consider
    (same) "states s' = states s" "results s' = results s" "attempts s' = attempts s"
    | (attempt) idx p where "idx < length (states s)" "\<not> finalized (states s ! idx)"
        "attempts s' = attempts s + 1"
        "if cooldowns (states s ! idx) + 1 \<ge> 3
         then states s' = (states s)[idx := (states s ! idx)\<lparr>cooldowns := cooldowns (states s ! idx) + 1,
                                      attemptsInCycle := 0, finalized := True\<rparr>] \<and>
              results s' = results s @ [mk_tmp (states s ! idx) (tryOnce (attempts s) (acc_FID (acc (states s ! idx))) giftCode) p] \<and>
              pending s' = pending s - 1
         else states s' = (states s)[idx := (states s ! idx)\<lparr>cooldowns := cooldowns (states s ! idx) + 1,
                                      attemptsInCycle := 0, nextReadyAt := clk_time (clk s') + 60 * Second\<rparr>] \<and>
              results s' = results s \<and> pending s' = pending s"
    using busy by blast
  then show ?thesis
  proof cases
    case same
    with inv show ?thesis by (simp add: busy_inv_def)
  next
    case (attempt idx p)
    let ?P = "\<lambda>st. attemptsInCycle st = 0 \<and> 0 \<le> cooldowns st \<and> cooldowns st \<le> 3 \<and>
                      (finalized st \<longleftrightarrow> cooldowns st = 3)"
    let ?st = "states s ! idx"
    let ?r = "tryOnce (attempts s) (acc_FID (acc ?st)) giftCode"
    from inv have all: "list_all ?P (states s)"
      and cnt: "int (attempts s) = sum_list (map cooldowns (states s))"
      and res: "list_all (\<lambda>b. br_Result b = ''failed'' \<and> br_ErrCode b = 40101) (results s)"
      by (simp_all add: busy_inv_def)
    from all attempt(1) have "?P ?st" by (simp add: list_all_length)
    with attempt(2) have c: "0 \<le> cooldowns ?st" "cooldowns ?st \<le> 2" "attemptsInCycle ?st = 0"
      by simp_all
    show ?thesis
    proof (cases "cooldowns ?st + 1 \<ge> 3")
      case True
      let ?st' = "?st\<lparr>cooldowns := cooldowns ?st + 1, attemptsInCycle := 0, finalized := True\<rparr>"
      from attempt(4) True have st: "states s' = (states s)[idx := ?st']"
        and rs: "results s' = results s @ [mk_tmp ?st ?r p]" by simp_all
      have "?P ?st'" using c True by simp
      with all have 1: "list_all ?P (states s')" unfolding st by (rule list_all_update)
      have 2: "int (attempts s') = sum_list (map cooldowns (states s'))"
        unfolding st sum_list_update_int [OF attempt(1)] using cnt attempt(3) by simp
      have "br_Result (mk_tmp ?st ?r p) = ''failed'' \<and> br_ErrCode (mk_tmp ?st ?r p) = 40101"
        using busy by (simp add: mk_tmp_def)
      with res have 3: "list_all (\<lambda>b. br_Result b = ''failed'' \<and> br_ErrCode b = 40101) (results s')"
        unfolding rs by simp
      from 1 2 3 show ?thesis by (simp add: busy_inv_def)
    next
      case False
      let ?st' = "?st\<lparr>cooldowns := cooldowns ?st + 1, attemptsInCycle := 0,
                      nextReadyAt := clk_time (clk s') + 60 * Second\<rparr>"
      from attempt(4) False have st: "states s' = (states s)[idx := ?st']"
        and rs: "results s' = results s" by simp_all
      have "?P ?st'" using c False attempt(2) by simp
      with all have 1: "list_all ?P (states s')"
        by (subst st) (rule list_all_update)
      have "sum_list (map cooldowns ((states s)[idx := ?st'])) = sum_list (map cooldowns (states s)) + 1"
        unfolding sum_list_update_int [OF attempt(1)] by simp
      then have 2: "int (attempts s') = sum_list (map cooldowns (states s'))"
        using cnt attempt(3) by (subst st) simp
      from 1 2 res rs show ?thesis by (simp add: busy_inv_def)
    qed
  qed
qed

lemma fatal_inv_step:
  assumes fatal: "\<forall>k fid code. \<not> rr_Success (tryOnce k fid code) \<and> isFatalError (rr_ErrCode (tryOnce k fid code))"
      and inv: "fatal_inv s" and it: "batch_iter tick tryOnce giftCode s = Continue s'"
  shows "fatal_inv s'"
proof -
  from batch_iter_fatal [OF it] consider
    (same) "states s' = states s" "results s' = results s" "attempts s' = attempts s"
    | (attempt) idx p where "idx < length (states s)" "\<not> finalized (states s ! idx)"
        "attempts s' = attempts s + 1"
        "states s' = (states s)[idx := (states s ! idx)\<lparr>finalized := True\<rparr>]"
        "results s' = results s @ [mk_tmp (states s ! idx) (tryOnce (attempts s) (acc_FID (acc (states s ! idx))) giftCode) p]"
    using fatal by blast
  then show ?thesis
  proof cases
    case same
    with inv show ?thesis by (simp add: fatal_inv_def)
  next
    case (attempt idx p)
    let ?P = "\<lambda>st. attemptsInCycle st = 0 \<and> cooldowns st = 0"
    let ?st = "states s ! idx"
    let ?r = "tryOnce (attempts s) (acc_FID (acc ?st)) giftCode"
    from inv have all: "list_all ?P (states s)"
      and cnt: "attempts s = length (filter finalized (states s))"
      and res: "list_all (\<lambda>b. br_Result b = ''failed'' \<and> isFatalError (br_ErrCode b)) (results s)"
      by (simp_all add: fatal_inv_def)
    from all attempt(1) have "?P ?st" by (simp add: list_all_length)
    then have "?P (?st\<lparr>finalized := True\<rparr>)" by simp
    with all have 1: "list_all ?P (states s')" unfolding attempt(4) by (rule list_all_update)
    from length_filter_update [OF attempt(1), of finalized "?st\<lparr>finalized := True\<rparr>"] attempt(2)
    have "length (filter finalized ((states s)[idx := ?st\<lparr>finalized := True\<rparr>]))
            = length (filter finalized (states s)) + 1" by simp
    then have 2: "attempts s' = length (filter finalized (states s'))"
      unfolding attempt(4) using cnt attempt(3) by simp
    have "br_Result (mk_tmp ?st ?r p) = ''failed'' \<and> isFatalError (br_ErrCode (mk_tmp ?st ?r p))"
      using fatal by (simp add: mk_tmp_def)
    with res have 3: "list_all (\<lambda>b. br_Result b = ''failed'' \<and> isFatalError (br_ErrCode b)) (results s')"
      unfolding attempt(5) by simp
    from 1 2 3 show ?thesis by (simp add: fatal_inv_def)
  qed
qed

lemma init_states_zero:
  "init_states tick accounts c = (sts, c') \<Longrightarrow>
     list_all (\<lambda>st. cooldowns st = 0 \<and> attemptsInCycle st = 0 \<and> \<not> finalized st) sts"
proof (induction accounts arbitrary: c sts c')
  case Nil
  then show ?case by simp
next
  case (Cons a as)
  obtain t c1 where t: "Now tick c = (t, c1)" by (cases "Now tick c")
  obtain sts1 c2 where r: "init_states tick as c1 = (sts1, c2)" by (cases "init_states tick as c1")
  from Cons.prems t r have
    "sts = \<lparr>acc = a, cooldowns = 0, attemptsInCycle = 0, nextReadyAt = t, finalized = False\<rparr> # sts1"
    by simp
  with Cons.IH [OF r] show ?case by simp
qed

lemma init_sched_zero:
  "list_all (\<lambda>st. cooldowns st = 0 \<and> attemptsInCycle st = 0 \<and> \<not> finalized st) (states (init_sched tick accounts))"
  "results (init_sched tick accounts) = []" "attempts (init_sched tick accounts) = 0"
proof -
  obtain sts c where i: "init_states tick accounts \<lparr>clk_time = 0, clk_reads = 0\<rparr> = (sts, c)"
    by (cases "init_states tick accounts \<lparr>clk_time = 0, clk_reads = 0\<rparr>")
  from init_states_zero [OF i]
  show "list_all (\<lambda>st. cooldowns st = 0 \<and> attemptsInCycle st = 0 \<and> \<not> finalized st) (states (init_sched tick accounts))"
    by (simp add: init_sched_def i)
  show "results (init_sched tick accounts) = []" "attempts (init_sched tick accounts) = 0"
    by (simp_all add: init_sched_def i)
qed

lemma batch_run_returns:
  assumes "\<forall>k fid code. rr_ErrCode (tryOnce k fid code) \<noteq> 40100"
      and "18 * length accounts + 1 \<le> fuel"
  shows "\<exists>s'. batch_loop tick tryOnce giftCode fuel (init_sched tick accounts) = Some s' \<and>
              RedeemBatch tick tryOnce fuel accounts giftCode = Some (results s') \<and>
              list_all finalized (states s') \<and> map acc (states s') = accounts \<and>
              length (results s') = length accounts"
proof -
  from RedeemBatch_returns_without_40100 [OF assms] obtain rs where
    rs: "RedeemBatch tick tryOnce fuel accounts giftCode = Some rs" by blast
  then obtain s' where
    l: "batch_loop tick tryOnce giftCode fuel (init_sched tick accounts) = Some s'" and "rs = results s'"
    by (auto simp: RedeemBatch_def)
  with rs have r: "RedeemBatch tick tryOnce fuel accounts giftCode = Some (results s')" by simp
  from batch_loop_inv [OF l init_sched_inv] have inv: "sched_inv accounts s'"
    and fin: "list_all finalized (states s')" by simp_all
  from fin have "filter finalized (states s') = states s'" by (simp add: list_all_iff)
  with inv have m: "mset (map br_key (results s')) = mset (map (\<lambda>st. acc_key (acc st)) (states s'))"
    and a: "map acc (states s') = accounts"
    by (simp_all add: sched_inv_def)
  from m have "size (mset (map br_key (results s'))) = size (mset (map (\<lambda>st. acc_key (acc st)) (states s')))"
    by simp
  then have "length (results s') = length (states s')" by simp
  moreover from a have "length (states s') = length accounts" by (metis length_map)
  ultimately show ?thesis using l r fin a by simp
qed

lemma busy_run:
  assumes busy: "\<forall>k fid code. \<not> rr_Success (tryOnce k fid code) \<and> \<not> rr_IsFatal (tryOnce k fid code) \<and>
                   rr_ErrCode (tryOnce k fid code) = 40101"
      and fuel: "18 * length accounts + 1 \<le> fuel"
  shows "\<exists>s'. batch_loop tick tryOnce giftCode fuel (init_sched tick accounts) = Some s' \<and>
              RedeemBatch tick tryOnce fuel accounts giftCode = Some (results s') \<and>
              attempts s' = 3 * length accounts \<and>
              map acc (states s') = accounts \<and>
              list_all (\<lambda>st. finalized st \<and> cooldowns st = 3 \<and> attemptsInCycle st = 0) (states s') \<and>
              length (results s') = length accounts \<and>
              list_all (\<lambda>b. br_Result b = ''failed'' \<and> br_ErrCode b = 40101) (results s')"
proof -
  from busy have "\<forall>k fid code. rr_ErrCode (tryOnce k fid code) \<noteq> 40100" by simp
  from batch_run_returns [OF this fuel, of tick giftCode] obtain s' where
    l: "batch_loop tick tryOnce giftCode fuel (init_sched tick accounts) = Some s'"
    and r: "RedeemBatch tick tryOnce fuel accounts giftCode = Some (results s')"
    and fin: "list_all finalized (states s')" and a: "map acc (states s') = accounts"
    and len: "length (results s') = length accounts" by blast
  have "list_all (\<lambda>st. cooldowns st = 0) (states (init_sched tick accounts))"
    using init_sched_zero(1) [of tick accounts] by (simp add: list_all_iff)
  then have "sum_list (map cooldowns (states (init_sched tick accounts))) = 0"
    by (simp add: sum_list_const)
  with init_sched_zero [of tick accounts] have "busy_inv (init_sched tick accounts)"
    by (simp add: busy_inv_def list_all_iff)
  from batch_loop_invariant [of busy_inv tick tryOnce giftCode, OF busy_inv_step [OF busy] this l]
  have inv: "busy_inv s'" .
  with fin have all: "list_all (\<lambda>st. finalized st \<and> cooldowns st = 3 \<and> attemptsInCycle st = 0) (states s')"
    by (auto simp: busy_inv_def list_all_iff)
  then have "list_all (\<lambda>st. cooldowns st = 3) (states s')" by (simp add: list_all_iff)
  then have "sum_list (map cooldowns (states s')) = 3 * int (length (states s'))"
    by (rule sum_list_const)
  moreover from a have "length (states s') = length accounts" by (metis length_map)
  ultimately have "attempts s' = 3 * length accounts" using inv by (simp add: busy_inv_def)
  with l r a all len inv show ?thesis by (simp add: busy_inv_def)
qed

lemma fatal_run:
  assumes fatal: "\<forall>k fid code. \<not> rr_Success (tryOnce k fid code) \<and> isFatalError (rr_ErrCode (tryOnce k fid code))"
      and fuel: "18 * length accounts + 1 \<le> fuel"
  shows "\<exists>s'. batch_loop tick tryOnce giftCode fuel (init_sched tick accounts) = Some s' \<and>
              RedeemBatch tick tryOnce fuel accounts giftCode = Some (results s') \<and>
              attempts s' = length accounts \<and>
              map acc (states s') = accounts \<and>
              list_all (\<lambda>st. finalized st \<and> cooldowns st = 0 \<and> attemptsInCycle st = 0) (states s') \<and>
              length (results s') = length accounts \<and>
              list_all (\<lambda>b. br_Result b = ''failed'' \<and> isFatalError (br_ErrCode b)) (results s')"
proof -
  have "rr_ErrCode (tryOnce k fid code) \<noteq> 40100" for k fid code
    using fatal [rule_format, of k fid code] by (auto simp: isFatalError_def)
  then have "\<forall>k fid code. rr_ErrCode (tryOnce k fid code) \<noteq> 40100" by blast
  from batch_run_returns [OF this fuel, of tick giftCode] obtain s' where
    l: "batch_loop tick tryOnce giftCode fuel (init_sched tick accounts) = Some s'"
    and r: "RedeemBatch tick tryOnce fuel accounts giftCode = Some (results s')"
    and fin: "list_all finalized (states s')" and a: "map acc (states s') = accounts"
    and len: "length (results s') = length accounts" by blast
  have "filter finalized (states (init_sched tick accounts)) = []"
    using init_sched_zero(1) [of tick accounts] by (simp add: list_all_iff filter_empty_conv)
  with init_sched_zero [of tick accounts] have "fatal_inv (init_sched tick accounts)"
    by (simp add: fatal_inv_def list_all_iff)
  from batch_loop_invariant [of fatal_inv tick tryOnce giftCode, OF fatal_inv_step [OF fatal] this l]
  have inv: "fatal_inv s'" .
  with fin have all: "list_all (\<lambda>st. finalized st \<and> cooldowns st = 0 \<and> attemptsInCycle st = 0) (states s')"
    by (auto simp: fatal_inv_def list_all_iff)
  from fin have "filter finalized (states s') = states s'" by (simp add: list_all_iff)
  moreover from a have "length (states s') = length accounts" by (metis length_map)
  ultimately have "attempts s' = length accounts" using inv by (simp add: fatal_inv_def)
  with l r a all len inv show ?thesis by (simp add: fatal_inv_def)
qed


lemma three_busy_outcomes:
  assumes r1: "r1 = tryOnceNoCooldown fid giftCode e1" "rr_ErrCode r1 = 40101"
      and r2: "r2 = tryOnceNoCooldown fid giftCode e2" "rr_ErrCode r2 = 40101"
      and r3: "r3 = tryOnceNoCooldown fid giftCode e3" "rr_ErrCode r3 = 40101"
      and st0: "0 \<le> cooldowns st0"
      and s1: "settle tick r1 p1 st0 c1 = (st1, out1, c1')" "\<not> finalized st1"
      and s2: "settle tick r2 p2 st1 c2 = (st2, out2, c2')" "\<not> finalized st2"
      and s3: "settle tick r3 p3 st2 c3 = (st3, out3, c3')"
  shows "st1 = st0\<lparr>cooldowns := cooldowns st0 + 1, attemptsInCycle := 0,
                    nextReadyAt := fst (Now tick c1) + 60 * Second\<rparr> \<and> out1 = [] \<and>
         st2 = st1\<lparr>cooldowns := cooldowns st1 + 1, attemptsInCycle := 0,
                    nextReadyAt := fst (Now tick c2) + 60 * Second\<rparr> \<and> out2 = [] \<and>
         finalized st3 \<and> out3 = [mk_tmp st2 r3 p3] \<and> br_Result (mk_tmp st2 r3 p3) = ''failed'' \<and>
         acc st3 = acc st0 \<and>
         (\<forall>now sts c idx wait c'.
            pickNext tick now sts c = (Some (idx, wait), c') \<longrightarrow> sts ! idx \<noteq> st3)"
proof -
  note n1 = tryOnce_code_not_final [OF r1(1)] and n2 = tryOnce_code_not_final [OF r2(1)]
    and n3 = tryOnce_code_not_final [OF r3(1)]
  have e1: "settle tick r1 p1 st0 c1 =
           (if cooldowns st0 + 1 \<ge> 3
            then (st0\<lparr>cooldowns := cooldowns st0 + 1, attemptsInCycle := 0, finalized := True\<rparr>,
                  [mk_tmp st0 r1 p1], c1)
            else (st0\<lparr>cooldowns := cooldowns st0 + 1, attemptsInCycle := 0,
                     nextReadyAt := fst (Now tick c1) + 60 * Second\<rparr>, [], snd (Now tick c1)))"
    using n1 r1(2) by (intro settle_busy) simp_all
  have e2: "settle tick r2 p2 st1 c2 =
           (if cooldowns st1 + 1 \<ge> 3
            then (st1\<lparr>cooldowns := cooldowns st1 + 1, attemptsInCycle := 0, finalized := True\<rparr>,
                  [mk_tmp st1 r2 p2], c2)
            else (st1\<lparr>cooldowns := cooldowns st1 + 1, attemptsInCycle := 0,
                     nextReadyAt := fst (Now tick c2) + 60 * Second\<rparr>, [], snd (Now tick c2)))"
    using n2 r2(2) by (intro settle_busy) simp_all
  have e3: "settle tick r3 p3 st2 c3 =
           (if cooldowns st2 + 1 \<ge> 3
            then (st2\<lparr>cooldowns := cooldowns st2 + 1, attemptsInCycle := 0, finalized := True\<rparr>,
                  [mk_tmp st2 r3 p3], c3)
            else (st2\<lparr>cooldowns := cooldowns st2 + 1, attemptsInCycle := 0,
                     nextReadyAt := fst (Now tick c3) + 60 * Second\<rparr>, [], snd (Now tick c3)))"
    using n3 r3(2) by (intro settle_busy) simp_all
  have a1: "st1 = st0\<lparr>cooldowns := cooldowns st0 + 1, attemptsInCycle := 0,
                    nextReadyAt := fst (Now tick c1) + 60 * Second\<rparr> \<and> out1 = []"
    using e1 s1 by (auto split: if_splits)
  have a2: "st2 = st1\<lparr>cooldowns := cooldowns st1 + 1, attemptsInCycle := 0,
                    nextReadyAt := fst (Now tick c2) + 60 * Second\<rparr> \<and> out2 = []"
    using e2 s2 by (auto split: if_splits)
  have "cooldowns st2 = cooldowns st0 + 2" using a1 a2 by simp
  then have a3: "finalized st3 \<and> out3 = [mk_tmp st2 r3 p3] \<and> acc st3 = acc st0"
    using e3 s3(1) st0 a1 a2 by (auto split: if_splits)
  have a4: "br_Result (mk_tmp st2 r3 p3) = ''failed''" by (simp add: mk_tmp_def)
  have a5: "\<forall>now sts c idx wait c'.
            pickNext tick now sts c = (Some (idx, wait), c') \<longrightarrow> sts ! idx \<noteq> st3"
    using a3 pickNext_picks_pending by blast
  from a1 a2 a3 a4 a5 show ?thesis by blast
qed

lemma normalize_ab12: "normalize [] ''ab12'' = ''AB12''"
  by code_simp

lemma busy_answers: "rr_ErrCode (tryOnceNoCooldown fid code (redeem_answers 40101)) = 40101"
  by (simp add: tryOnceNoCooldown_def redeem_answers_def ok_login_def ok_captcha_def api_error_def
      Login_def GetCaptcha_def RedeemCode_def StatusOK_def GameResult0_def Let_def normalize_ab12
      isSuccess_def del: normalize.simps)

lemma expired_answers: "isFatalError (rr_ErrCode (tryOnceNoCooldown fid code (redeem_answers 40007)))"
  by (simp add: tryOnceNoCooldown_def redeem_answers_def ok_login_def ok_captcha_def api_error_def
      Login_def GetCaptcha_def RedeemCode_def StatusOK_def GameResult0_def Let_def normalize_ab12
      isSuccess_def isFatalError_def del: normalize.simps)

text \<open>
  C3. Over \<open>settle\<close>: of three server-busy outcomes (code 40101) in a row for one
  account, each followed by a further attempt only while the account is not finalized, the
  first two increment \<open>cooldowns\<close>, reset \<open>attemptsInCycle\<close> to 0, set \<open>nextReadyAt\<close>
  60 seconds after the clock reading and append no result, and the third finalizes the
  account and appends its result, a failed one; \<open>pickNext\<close> never selects a finalized
  account. Over a pass of the loop of \<open>RedeemBatch\<close>: a pass leaves every finalized
  account as it is, and when it makes an attempt, it makes it for an account that is not
  finalized, and a server-busy outcome has exactly this effect on the state of that
  account, on the results and on \<open>pending\<close> (finalizing when the incremented
  \<open>cooldowns\<close> is 3 or more, and otherwise setting \<open>nextReadyAt\<close> 60 seconds after the
  last clock reading of the pass). Over the loop: it leaves every account that is
  finalized as it is. Over a whole run in which every attempt returns code 40101:
  \<open>RedeemBatch\<close> returns after exactly three attempts for each account, with every
  account finalized at \<open>cooldowns = 3\<close> and one failed result with code 40101 for each
  account.
\<close>

theorem C3_server_busy_ceiling:
  "(rr_ErrCode (tryOnceNoCooldown fid giftCode e1) = 40101 \<and>
    rr_ErrCode (tryOnceNoCooldown fid giftCode e2) = 40101 \<and>
    rr_ErrCode (tryOnceNoCooldown fid giftCode e3) = 40101 \<and>
    0 \<le> cooldowns st0 \<and>
    settle tick (tryOnceNoCooldown fid giftCode e1) p1 st0 c1 = (st1, out1, c1') \<and> \<not> finalized st1 \<and>
    settle tick (tryOnceNoCooldown fid giftCode e2) p2 st1 c2 = (st2, out2, c2') \<and> \<not> finalized st2 \<and>
    settle tick (tryOnceNoCooldown fid giftCode e3) p3 st2 c3 = (st3, out3, c3') \<longrightarrow>
      st1 = st0\<lparr>cooldowns := cooldowns st0 + 1, attemptsInCycle := 0,
                 nextReadyAt := fst (Now tick c1) + 60 * Second\<rparr> \<and> out1 = [] \<and>
      st2 = st1\<lparr>cooldowns := cooldowns st1 + 1, attemptsInCycle := 0,
                 nextReadyAt := fst (Now tick c2) + 60 * Second\<rparr> \<and> out2 = [] \<and>
      finalized st3 \<and> out3 = [mk_tmp st2 (tryOnceNoCooldown fid giftCode e3) p3] \<and>
      br_Result (mk_tmp st2 (tryOnceNoCooldown fid giftCode e3) p3) = ''failed'' \<and>
      acc st3 = acc st0 \<and>
      (\<forall>now sts c idx wait c'.
         pickNext tick now sts c = (Some (idx, wait), c') \<longrightarrow> sts ! idx \<noteq> st3)) \<and>
   (batch_iter tick (\<lambda>k fid code. tryOnceNoCooldown fid code (envs k)) giftCode s = Continue s' \<longrightarrow>
      (\<forall>i<length (states s). finalized (states s ! i) \<longrightarrow> states s' ! i = states s ! i) \<and>
      ((states s' = states s \<and> results s' = results s \<and> pending s' = pending s \<and> attempts s' = attempts s) \<or>
       (\<exists>idx p. idx < length (states s) \<and> \<not> finalized (states s ! idx) \<and> attempts s' = attempts s + 1 \<and>
          (rr_ErrCode (tryOnceNoCooldown (acc_FID (acc (states s ! idx))) giftCode (envs (attempts s))) = 40101 \<longrightarrow>
             (if cooldowns (states s ! idx) + 1 \<ge> 3
              then states s' = (states s)[idx := (states s ! idx)\<lparr>cooldowns := cooldowns (states s ! idx) + 1,
                                    attemptsInCycle := 0, finalized := True\<rparr>] \<and>
                   results s' = results s @ [mk_tmp (states s ! idx)
                       (tryOnceNoCooldown (acc_FID (acc (states s ! idx))) giftCode (envs (attempts s))) p] \<and>
                   pending s' = pending s - 1
              else states s' = (states s)[idx := (states s ! idx)\<lparr>cooldowns := cooldowns (states s ! idx) + 1,
                                    attemptsInCycle := 0, nextReadyAt := clk_time (clk s') + 60 * Second\<rparr>] \<and>
                   results s' = results s \<and> pending s' = pending s))))) \<and>
   (batch_loop tick (\<lambda>k fid code. tryOnceNoCooldown fid code (envs k)) giftCode n sa = Some sb \<longrightarrow>
      (\<forall>i<length (states sa). finalized (states sa ! i) \<longrightarrow> states sb ! i = states sa ! i)) \<and>
   ((\<forall>k fid code. rr_ErrCode (tryOnceNoCooldown fid code (envs k)) = 40101) \<and>
    18 * length accounts + 1 \<le> fuel \<longrightarrow>
      (\<exists>sc. batch_loop tick (\<lambda>k fid code. tryOnceNoCooldown fid code (envs k)) giftCode fuel
               (init_sched tick accounts) = Some sc \<and>
            RedeemBatch tick (\<lambda>k fid code. tryOnceNoCooldown fid code (envs k)) fuel accounts giftCode
              = Some (results sc) \<and>
            attempts sc = 3 * length accounts \<and>
            map acc (states sc) = accounts \<and>
            list_all (\<lambda>st. finalized st \<and> cooldowns st = 3 \<and> attemptsInCycle st = 0) (states sc) \<and>
            length (results sc) = length accounts \<and>
            list_all (\<lambda>b. br_Result b = ''failed'' \<and> br_ErrCode b = 40101) (results sc)))"
  (is "?A \<and> ?B \<and> ?C \<and> ?D")
proof -
  let ?T = "\<lambda>k fid code. tryOnceNoCooldown fid code (envs k)"
  have nf: "\<not> rr_Success (tryOnceNoCooldown f g e) \<and> \<not> rr_IsFatal (tryOnceNoCooldown f g e)"
    if "rr_ErrCode (tryOnceNoCooldown f g e) = 40101" for f g e
    using tryOnce_code_not_final [OF refl, of f g e] that by simp
  have A: ?A
  proof (intro impI, elim conjE)
    assume "rr_ErrCode (tryOnceNoCooldown fid giftCode e1) = 40101"
      "rr_ErrCode (tryOnceNoCooldown fid giftCode e2) = 40101"
      "rr_ErrCode (tryOnceNoCooldown fid giftCode e3) = 40101"
      "0 \<le> cooldowns st0"
      "settle tick (tryOnceNoCooldown fid giftCode e1) p1 st0 c1 = (st1, out1, c1')" "\<not> finalized st1"
      "settle tick (tryOnceNoCooldown fid giftCode e2) p2 st1 c2 = (st2, out2, c2')" "\<not> finalized st2"
      "settle tick (tryOnceNoCooldown fid giftCode e3) p3 st2 c3 = (st3, out3, c3')"
    from three_busy_outcomes [OF refl this(1) refl this(2) refl this(3-)]
    show "st1 = st0\<lparr>cooldowns := cooldowns st0 + 1, attemptsInCycle := 0,
                 nextReadyAt := fst (Now tick c1) + 60 * Second\<rparr> \<and> out1 = [] \<and>
      st2 = st1\<lparr>cooldowns := cooldowns st1 + 1, attemptsInCycle := 0,
                 nextReadyAt := fst (Now tick c2) + 60 * Second\<rparr> \<and> out2 = [] \<and>
      finalized st3 \<and> out3 = [mk_tmp st2 (tryOnceNoCooldown fid giftCode e3) p3] \<and>
      br_Result (mk_tmp st2 (tryOnceNoCooldown fid giftCode e3) p3) = ''failed'' \<and>
      acc st3 = acc st0 \<and>
      (\<forall>now sts c idx wait c'.
         pickNext tick now sts c = (Some (idx, wait), c') \<longrightarrow> sts ! idx \<noteq> st3)" .
  qed
  have B: ?B
  proof
    assume it: "batch_iter tick ?T giftCode s = Continue s'"
    from batch_iter_finalized_kept(2) [OF it]
    have 1: "\<forall>i<length (states s). finalized (states s ! i) \<longrightarrow> states s' ! i = states s ! i"
      by blast
    from batch_iter_busy [OF it] nf
    have 2: "(states s' = states s \<and> results s' = results s \<and> pending s' = pending s \<and> attempts s' = attempts s) \<or>
       (\<exists>idx p. idx < length (states s) \<and> \<not> finalized (states s ! idx) \<and> attempts s' = attempts s + 1 \<and>
          (rr_ErrCode (tryOnceNoCooldown (acc_FID (acc (states s ! idx))) giftCode (envs (attempts s))) = 40101 \<longrightarrow>
             (if cooldowns (states s ! idx) + 1 \<ge> 3
              then states s' = (states s)[idx := (states s ! idx)\<lparr>cooldowns := cooldowns (states s ! idx) + 1,
                                    attemptsInCycle := 0, finalized := True\<rparr>] \<and>
                   results s' = results s @ [mk_tmp (states s ! idx)
                       (tryOnceNoCooldown (acc_FID (acc (states s ! idx))) giftCode (envs (attempts s))) p] \<and>
                   pending s' = pending s - 1
              else states s' = (states s)[idx := (states s ! idx)\<lparr>cooldowns := cooldowns (states s ! idx) + 1,
                                    attemptsInCycle := 0, nextReadyAt := clk_time (clk s') + 60 * Second\<rparr>] \<and>
                   results s' = results s \<and> pending s' = pending s)))"
      by blast
    from 1 2 show "(\<forall>i<length (states s). finalized (states s ! i) \<longrightarrow> states s' ! i = states s ! i) \<and>
      ((states s' = states s \<and> results s' = results s \<and> pending s' = pending s \<and> attempts s' = attempts s) \<or>
       (\<exists>idx p. idx < length (states s) \<and> \<not> finalized (states s ! idx) \<and> attempts s' = attempts s + 1 \<and>
          (rr_ErrCode (tryOnceNoCooldown (acc_FID (acc (states s ! idx))) giftCode (envs (attempts s))) = 40101 \<longrightarrow>
             (if cooldowns (states s ! idx) + 1 \<ge> 3
              then states s' = (states s)[idx := (states s ! idx)\<lparr>cooldowns := cooldowns (states s ! idx) + 1,
                                    attemptsInCycle := 0, finalized := True\<rparr>] \<and>
                   results s' = results s @ [mk_tmp (states s ! idx)
                       (tryOnceNoCooldown (acc_FID (acc (states s ! idx))) giftCode (envs (attempts s))) p] \<and>
                   pending s' = pending s - 1
              else states s' = (states s)[idx := (states s ! idx)\<lparr>cooldowns := cooldowns (states s ! idx) + 1,
                                    attemptsInCycle := 0, nextReadyAt := clk_time (clk s') + 60 * Second\<rparr>] \<and>
                   results s' = results s \<and> pending s' = pending s))))" ..
  qed
  have C: ?C
    using batch_loop_finalized_kept [of tick ?T giftCode n sa sb] by blast
  have D: ?D
  proof (intro impI, elim conjE)
    assume busy: "\<forall>k fid code. rr_ErrCode (tryOnceNoCooldown fid code (envs k)) = 40101"
      and fuel: "18 * length accounts + 1 \<le> fuel"
    from busy nf have "\<forall>k fid code. \<not> rr_Success (?T k fid code) \<and> \<not> rr_IsFatal (?T k fid code) \<and>
                   rr_ErrCode (?T k fid code) = 40101" by simp
    from busy_run [OF this fuel, of tick giftCode]
    show "\<exists>sc. batch_loop tick ?T giftCode fuel (init_sched tick accounts) = Some sc \<and>
            RedeemBatch tick ?T fuel accounts giftCode = Some (results sc) \<and>
            attempts sc = 3 * length accounts \<and>
            map acc (states sc) = accounts \<and>
            list_all (\<lambda>st. finalized st \<and> cooldowns st = 3 \<and> attemptsInCycle st = 0) (states sc) \<and>
            length (results sc) = length accounts \<and>
            list_all (\<lambda>b. br_Result b = ''failed'' \<and> br_ErrCode b = 40101) (results sc)" .
  qed
  from A B C D show ?thesis by (intro conjI)
qed


theorem C3_server_busy_ceiling_witness:
  "rr_ErrCode (tryOnceNoCooldown ''1001'' ''ABC123'' (redeem_answers 40101)) = 40101 \<and>
   settle (\<lambda>_. 0) (tryOnceNoCooldown ''1001'' ''ABC123'' (redeem_answers 40101)) 0 (state_of 0 0 0 False) clock0
     = (state_of 1 0 (60 * Second) False, [], clock1) \<and>
   settle (\<lambda>_. 0) (tryOnceNoCooldown ''1001'' ''ABC123'' (redeem_answers 40101)) 0 (state_of 1 0 (60 * Second) False) clock0
     = (state_of 2 0 (60 * Second) False, [], clock1) \<and>
   settle (\<lambda>_. 0) (tryOnceNoCooldown ''1001'' ''ABC123'' (redeem_answers 40101)) 0 (state_of 2 0 (60 * Second) False) clock0
     = (state_of 3 0 (60 * Second) True,
        [mk_tmp (state_of 2 0 (60 * Second) False) (tryOnceNoCooldown ''1001'' ''ABC123'' (redeem_answers 40101)) 0],
        clock0) \<and>
   br_Result (mk_tmp (state_of 2 0 (60 * Second) False) (tryOnceNoCooldown ''1001'' ''ABC123'' (redeem_answers 40101)) 0) = ''failed'' \<and>
   pickNext (\<lambda>_. 0) 0 [state_of 3 0 (60 * Second) True, state_of 0 0 0 False] clock0 = (Some (1, 0), clock0) \<and>
   [state_of 3 0 (60 * Second) True, state_of 0 0 0 False] ! 1 \<noteq> state_of 3 0 (60 * Second) True \<and>
   batch_iter (\<lambda>_. 0) (\<lambda>k fid code. tryOnceNoCooldown fid code (redeem_answers 40101)) ''ABC123'' sched1
     = Continue \<lparr>states = [state_of 3 0 0 True, state_of 2 0 (60 * Second) False], results = [],
                 pending = 1, lastSwitchAt = Some 0, clk = \<lparr>clk_time = 0, clk_reads = 5\<rparr>, attempts = 1\<rparr> \<and>
   [state_of 3 0 0 True, state_of 2 0 (60 * Second) False] ! 0 = states sched1 ! 0 \<and>
   batch_loop (\<lambda>_. 0) (\<lambda>k fid code. tryOnceNoCooldown fid code (redeem_answers 40101)) ''ABC123'' 10 sched1
     = Some \<lparr>states = [state_of 3 0 0 True, state_of 3 0 (60 * Second) True],
             results = [busy_result_of account1], pending = 0, lastSwitchAt = Some (60 * Second),
             clk = \<lparr>clk_time = 60 * Second, clk_reads = 12\<rparr>, attempts = 2\<rparr> \<and>
   [state_of 3 0 0 True, state_of 3 0 (60 * Second) True] ! 0 = states sched1 ! 0 \<and>
   RedeemBatch (\<lambda>_. 0) (\<lambda>k fid code. tryOnceNoCooldown fid code (redeem_answers 40101)) 37
       [account1, account2] ''ABC123''
     = Some [busy_result_of account1, busy_result_of account2] \<and>
   attempts (the (batch_loop (\<lambda>_. 0) (\<lambda>k fid code. tryOnceNoCooldown fid code (redeem_answers 40101))
                    ''ABC123'' 37 (init_sched (\<lambda>_. 0) [account1, account2]))) = 6"
proof -
  let ?r = "tryOnceNoCooldown ''1001'' ''ABC123'' (redeem_answers 40101)"
  let ?T = "\<lambda>k fid code. tryOnceNoCooldown fid code (redeem_answers 40101)"
  let ?s1 = "\<lparr>states = [state_of 3 0 0 True, state_of 2 0 (60 * Second) False], results = [],
                 pending = 1, lastSwitchAt = Some 0, clk = \<lparr>clk_time = 0, clk_reads = 5\<rparr>, attempts = 1\<rparr>"
  let ?s2 = "\<lparr>states = [state_of 3 0 0 True, state_of 3 0 (60 * Second) True],
             results = [busy_result_of account1], pending = 0, lastSwitchAt = Some (60 * Second),
             clk = \<lparr>clk_time = 60 * Second, clk_reads = 12\<rparr>, attempts = 2\<rparr>"
  have code: "rr_ErrCode ?r = 40101" by (rule busy_answers)
  have c0: "0 \<le> cooldowns (state_of 0 0 0 False)" by (simp add: state_of_def)
  have s1: "settle (\<lambda>_. 0) ?r 0 (state_of 0 0 0 False) clock0 = (state_of 1 0 (60 * Second) False, [], clock1)"
    by code_simp
  have s2: "settle (\<lambda>_. 0) ?r 0 (state_of 1 0 (60 * Second) False) clock0 = (state_of 2 0 (60 * Second) False, [], clock1)"
    by code_simp
  have s3: "settle (\<lambda>_. 0) ?r 0 (state_of 2 0 (60 * Second) False) clock0
     = (state_of 3 0 (60 * Second) True, [mk_tmp (state_of 2 0 (60 * Second) False) ?r 0], clock0)"
    by code_simp
  have n1: "\<not> finalized (state_of 1 0 (60 * Second) False)" by (simp add: state_of_def)
  have n2: "\<not> finalized (state_of 2 0 (60 * Second) False)" by (simp add: state_of_def)
  have pk: "pickNext (\<lambda>_. 0) 0 [state_of 3 0 (60 * Second) True, state_of 0 0 0 False] clock0
              = (Some (1, 0), clock0)"
    by code_simp
  have it: "batch_iter (\<lambda>_. 0) ?T ''ABC123'' sched1 = Continue ?s1" by code_simp
  have lp: "batch_loop (\<lambda>_. 0) ?T ''ABC123'' 10 sched1 = Some ?s2" by code_simp
  have fin: "0 < length (states sched1)" "finalized (states sched1 ! 0)"
    by (simp_all add: sched1_def state_of_def)
  have busy: "\<forall>k fid code. rr_ErrCode (tryOnceNoCooldown fid code (redeem_answers 40101)) = 40101"
    by (simp add: busy_answers)
  have fuel: "18 * length [account1, account2] + 1 \<le> (37::nat)" by simp
  have run: "RedeemBatch (\<lambda>_. 0) ?T 37 [account1, account2] ''ABC123''
               = Some [busy_result_of account1, busy_result_of account2]"
    by code_simp
  note w = C3_server_busy_ceiling [where envs = "\<lambda>_. redeem_answers 40101" and tick = "\<lambda>_. 0"
      and giftCode = "''ABC123''" and fid = "''1001''"
      and ?e1.0 = "redeem_answers 40101" and ?e2.0 = "redeem_answers 40101" and ?e3.0 = "redeem_answers 40101"
      and ?st0.0 = "state_of 0 0 0 False" and ?st1.0 = "state_of 1 0 (60 * Second) False"
      and ?st2.0 = "state_of 2 0 (60 * Second) False" and ?st3.0 = "state_of 3 0 (60 * Second) True"
      and ?p1.0 = 0 and ?p2.0 = 0 and ?p3.0 = 0 and ?c1.0 = clock0 and ?c2.0 = clock0 and ?c3.0 = clock0
      and ?c1' = clock1 and ?c2' = clock1 and ?c3' = clock0 and ?out1.0 = "[]" and ?out2.0 = "[]"
      and ?out3.0 = "[mk_tmp (state_of 2 0 (60 * Second) False) ?r 0]"
      and s = sched1 and s' = ?s1 and n = 10 and sa = sched1 and sb = ?s2
      and accounts = "[account1, account2]" and fuel = 37]
  from w code c0 s1 n1 s2 n2 s3
  have "br_Result (mk_tmp (state_of 2 0 (60 * Second) False) ?r 0) = ''failed''"
    by blast
  moreover from w code c0 s1 n1 s2 n2 s3 pk
  have "[state_of 3 0 (60 * Second) True, state_of 0 0 0 False] ! 1 \<noteq> state_of 3 0 (60 * Second) True"
    by blast
  moreover from w it fin have "states ?s1 ! 0 = states sched1 ! 0" by blast
  then have "[state_of 3 0 0 True, state_of 2 0 (60 * Second) False] ! 0 = states sched1 ! 0" by simp
  moreover from w lp fin have "states ?s2 ! 0 = states sched1 ! 0" by blast
  then have "[state_of 3 0 0 True, state_of 3 0 (60 * Second) True] ! 0 = states sched1 ! 0" by simp
  moreover from w busy fuel obtain sc where
    "batch_loop (\<lambda>_. 0) ?T ''ABC123'' 37 (init_sched (\<lambda>_. 0) [account1, account2]) = Some sc"
    "attempts sc = 3 * length [account1, account2]" by blast
  then have "attempts (the (batch_loop (\<lambda>_. 0) ?T ''ABC123'' 37 (init_sched (\<lambda>_. 0) [account1, account2]))) = 6"
    by simp
  ultimately show ?thesis using code s1 s2 s3 pk it lp run by blast
qed


text \<open>
  C5. Over \<open>settle\<close>: an attempt whose outcome carries a fatal code finalizes the account
  at once, whatever its \<open>cooldowns\<close> and \<open>attemptsInCycle\<close> are, and appends a failed
  result; \<open>pickNext\<close> never selects the account again; the fatal codes are 40007 and
  40014 only. Over a pass of the loop of \<open>RedeemBatch\<close>: a pass leaves every finalized
  account as it is, and when it makes an attempt, it makes it for an account that is not
  finalized, and a fatal outcome finalizes that account, appends its failed result and
  decrements \<open>pending\<close>. Over the loop: it leaves every account that is finalized as it
  is. Over a whole run in which every attempt returns a fatal code: \<open>RedeemBatch\<close>
  returns after exactly one attempt for each account, with every account finalized, its
  \<open>cooldowns\<close> and \<open>attemptsInCycle\<close> still 0, and one failed result with a fatal
  code for each account.
\<close>

theorem C5_fatal_short_circuit:
  "(isFatalError (rr_ErrCode (tryOnceNoCooldown fid giftCode e)) \<longrightarrow>
      settle tick (tryOnceNoCooldown fid giftCode e) p st c
        = (st\<lparr>finalized := True\<rparr>, [mk_tmp st (tryOnceNoCooldown fid giftCode e) p], c) \<and>
      br_Result (mk_tmp st (tryOnceNoCooldown fid giftCode e) p) = ''failed'' \<and>
      (\<forall>now sts k idx wait k'.
         pickNext tick now sts k = (Some (idx, wait), k') \<longrightarrow> sts ! idx \<noteq> st\<lparr>finalized := True\<rparr>)) \<and>
   (\<forall>code. isFatalError code = (code = 40007 \<or> code = 40014)) \<and>
   (batch_iter tick (\<lambda>k fid code. tryOnceNoCooldown fid code (envs k)) giftCode s = Continue s' \<longrightarrow>
      (\<forall>i<length (states s). finalized (states s ! i) \<longrightarrow> states s' ! i = states s ! i) \<and>
      ((states s' = states s \<and> results s' = results s \<and> pending s' = pending s \<and> attempts s' = attempts s) \<or>
       (\<exists>idx q. idx < length (states s) \<and> \<not> finalized (states s ! idx) \<and> attempts s' = attempts s + 1 \<and>
          (isFatalError (rr_ErrCode (tryOnceNoCooldown (acc_FID (acc (states s ! idx))) giftCode (envs (attempts s)))) \<longrightarrow>
             states s' = (states s)[idx := (states s ! idx)\<lparr>finalized := True\<rparr>] \<and>
             results s' = results s @ [mk_tmp (states s ! idx)
                 (tryOnceNoCooldown (acc_FID (acc (states s ! idx))) giftCode (envs (attempts s))) q] \<and>
             pending s' = pending s - 1)))) \<and>
   (batch_loop tick (\<lambda>k fid code. tryOnceNoCooldown fid code (envs k)) giftCode n sa = Some sb \<longrightarrow>
      (\<forall>i<length (states sa). finalized (states sa ! i) \<longrightarrow> states sb ! i = states sa ! i)) \<and>
   ((\<forall>k fid code. isFatalError (rr_ErrCode (tryOnceNoCooldown fid code (envs k)))) \<and>
    18 * length accounts + 1 \<le> fuel \<longrightarrow>
      (\<exists>sc. batch_loop tick (\<lambda>k fid code. tryOnceNoCooldown fid code (envs k)) giftCode fuel
               (init_sched tick accounts) = Some sc \<and>
            RedeemBatch tick (\<lambda>k fid code. tryOnceNoCooldown fid code (envs k)) fuel accounts giftCode
              = Some (results sc) \<and>
            attempts sc = length accounts \<and>
            map acc (states sc) = accounts \<and>
            list_all (\<lambda>st. finalized st \<and> cooldowns st = 0 \<and> attemptsInCycle st = 0) (states sc) \<and>
            length (results sc) = length accounts \<and>
            list_all (\<lambda>b. br_Result b = ''failed'' \<and> isFatalError (br_ErrCode b)) (results sc)))"
  (is "?A \<and> ?F \<and> ?B \<and> ?C \<and> ?D")
proof -
  let ?T = "\<lambda>k fid code. tryOnceNoCooldown fid code (envs k)"
  have nf: "\<not> rr_Success (tryOnceNoCooldown f g x)"
    if "isFatalError (rr_ErrCode (tryOnceNoCooldown f g x))" for f g x
    using tryOnce_classified [OF refl, of f g x] that by (auto simp: isFatalError_def)
  have A: ?A
  proof
    let ?r = "tryOnceNoCooldown fid giftCode e"
    assume f: "isFatalError (rr_ErrCode ?r)"
    have "settle tick ?r p st c = (st\<lparr>finalized := True\<rparr>, [mk_tmp st ?r p], c)"
      using nf [OF f] f by (intro settle_fatal) simp_all
    moreover have "\<forall>now sts k idx wait k'.
               pickNext tick now sts k = (Some (idx, wait), k') \<longrightarrow> sts ! idx \<noteq> st\<lparr>finalized := True\<rparr>"
      using pickNext_picks_pending by fastforce
    moreover have "br_Result (mk_tmp st ?r p) = ''failed''" by (simp add: mk_tmp_def)
    ultimately show "settle tick ?r p st c = (st\<lparr>finalized := True\<rparr>, [mk_tmp st ?r p], c) \<and>
      br_Result (mk_tmp st ?r p) = ''failed'' \<and>
      (\<forall>now sts k idx wait k'.
         pickNext tick now sts k = (Some (idx, wait), k') \<longrightarrow> sts ! idx \<noteq> st\<lparr>finalized := True\<rparr>)"
      by blast
  qed
  have F: ?F by (simp add: isFatalError_def)
  have B: ?B
  proof
    assume it: "batch_iter tick ?T giftCode s = Continue s'"
    from batch_iter_finalized_kept(2) [OF it]
    have 1: "\<forall>i<length (states s). finalized (states s ! i) \<longrightarrow> states s' ! i = states s ! i"
      by blast
    from batch_iter_fatal [OF it] nf
    have 2: "(states s' = states s \<and> results s' = results s \<and> pending s' = pending s \<and> attempts s' = attempts s) \<or>
       (\<exists>idx q. idx < length (states s) \<and> \<not> finalized (states s ! idx) \<and> attempts s' = attempts s + 1 \<and>
          (isFatalError (rr_ErrCode (tryOnceNoCooldown (acc_FID (acc (states s ! idx))) giftCode (envs (attempts s)))) \<longrightarrow>
             states s' = (states s)[idx := (states s ! idx)\<lparr>finalized := True\<rparr>] \<and>
             results s' = results s @ [mk_tmp (states s ! idx)
                 (tryOnceNoCooldown (acc_FID (acc (states s ! idx))) giftCode (envs (attempts s))) q] \<and>
             pending s' = pending s - 1))"
      by blast
    from 1 2 show "(\<forall>i<length (states s). finalized (states s ! i) \<longrightarrow> states s' ! i = states s ! i) \<and>
      ((states s' = states s \<and> results s' = results s \<and> pending s' = pending s \<and> attempts s' = attempts s) \<or>
       (\<exists>idx q. idx < length (states s) \<and> \<not> finalized (states s ! idx) \<and> attempts s' = attempts s + 1 \<and>
          (isFatalError (rr_ErrCode (tryOnceNoCooldown (acc_FID (acc (states s ! idx))) giftCode (envs (attempts s)))) \<longrightarrow>
             states s' = (states s)[idx := (states s ! idx)\<lparr>finalized := True\<rparr>] \<and>
             results s' = results s @ [mk_tmp (states s ! idx)
                 (tryOnceNoCooldown (acc_FID (acc (states s ! idx))) giftCode (envs (attempts s))) q] \<and>
             pending s' = pending s - 1)))" ..
  qed
  have C: ?C
    using batch_loop_finalized_kept [of tick ?T giftCode n sa sb] by blast
  have D: ?D
  proof (intro impI, elim conjE)
    assume fatal: "\<forall>k fid code. isFatalError (rr_ErrCode (tryOnceNoCooldown fid code (envs k)))"
      and fuel: "18 * length accounts + 1 \<le> fuel"
    from fatal nf have "\<forall>k fid code. \<not> rr_Success (?T k fid code) \<and> isFatalError (rr_ErrCode (?T k fid code))"
      by simp
    from fatal_run [OF this fuel, of tick giftCode]
    show "\<exists>sc. batch_loop tick ?T giftCode fuel (init_sched tick accounts) = Some sc \<and>
            RedeemBatch tick ?T fuel accounts giftCode = Some (results sc) \<and>
            attempts sc = length accounts \<and>
            map acc (states sc) = accounts \<and>
            list_all (\<lambda>st. finalized st \<and> cooldowns st = 0 \<and> attemptsInCycle st = 0) (states sc) \<and>
            length (results sc) = length accounts \<and>
            list_all (\<lambda>b. br_Result b = ''failed'' \<and> isFatalError (br_ErrCode b)) (results sc)" .
  qed
  from A F B C D show ?thesis by (intro conjI)
qed

theorem C5_fatal_short_circuit_witness:
  "isFatalError (rr_ErrCode (tryOnceNoCooldown ''1001'' ''ABC123'' (redeem_answers 40007))) \<and>
   settle (\<lambda>_. 0) (tryOnceNoCooldown ''1001'' ''ABC123'' (redeem_answers 40007)) 0 (state_of 2 2 0 False) clock0
     = (state_of 2 2 0 True,
        [mk_tmp (state_of 2 2 0 False) (tryOnceNoCooldown ''1001'' ''ABC123'' (redeem_answers 40007)) 0],
        clock0) \<and>
   br_Result (mk_tmp (state_of 2 2 0 False) (tryOnceNoCooldown ''1001'' ''ABC123'' (redeem_answers 40007)) 0)
     = ''failed'' \<and>
   pickNext (\<lambda>_. 0) 0 [state_of 2 2 0 True, state_of 1 1 0 False] clock0 = (Some (1, 0), clock0) \<and>
   [state_of 2 2 0 True, state_of 1 1 0 False] ! 1 \<noteq> state_of 2 2 0 True \<and>
   batch_iter (\<lambda>_. 0) (\<lambda>k fid code. tryOnceNoCooldown fid code (redeem_answers 40007)) ''ABC123'' sched1
     = Continue \<lparr>states = [state_of 3 0 0 True, state_of 1 0 0 True],
                 results = [expired_result_of account1],
                 pending = 0, lastSwitchAt = Some 0, clk = \<lparr>clk_time = 0, clk_reads = 4\<rparr>, attempts = 1\<rparr> \<and>
   [state_of 3 0 0 True, state_of 1 0 0 True] ! 0 = states sched1 ! 0 \<and>
   batch_loop (\<lambda>_. 0) (\<lambda>k fid code. tryOnceNoCooldown fid code (redeem_answers 40007)) ''ABC123'' 10 sched1
     = Some \<lparr>states = [state_of 3 0 0 True, state_of 1 0 0 True],
             results = [expired_result_of account1],
             pending = 0, lastSwitchAt = Some 0, clk = \<lparr>clk_time = 0, clk_reads = 4\<rparr>, attempts = 1\<rparr> \<and>
   RedeemBatch (\<lambda>_. 0) (\<lambda>k fid code. tryOnceNoCooldown fid code (redeem_answers 40007)) 37
       [account1, account2] ''ABC123''
     = Some [expired_result_of account1, expired_result_of account2] \<and>
   attempts (the (batch_loop (\<lambda>_. 0) (\<lambda>k fid code. tryOnceNoCooldown fid code (redeem_answers 40007))
                    ''ABC123'' 37 (init_sched (\<lambda>_. 0) [account1, account2]))) = 2"
proof -
  let ?r = "tryOnceNoCooldown ''1001'' ''ABC123'' (redeem_answers 40007)"
  let ?T = "\<lambda>k fid code. tryOnceNoCooldown fid code (redeem_answers 40007)"
  let ?s1 = "\<lparr>states = [state_of 3 0 0 True, state_of 1 0 0 True],
                 results = [expired_result_of account1],
                 pending = 0, lastSwitchAt = Some 0, clk = \<lparr>clk_time = 0, clk_reads = 4\<rparr>, attempts = 1\<rparr>"
  have fatal: "isFatalError (rr_ErrCode ?r)" by (rule expired_answers)
  have st: "(state_of 2 2 0 False)\<lparr>finalized := True\<rparr> = state_of 2 2 0 True"
    by (simp add: state_of_def)
  have pk: "pickNext (\<lambda>_. 0) 0 [state_of 2 2 0 True, state_of 1 1 0 False] clock0
              = (Some (1, 0), clock0)"
    by code_simp
  have it: "batch_iter (\<lambda>_. 0) ?T ''ABC123'' sched1 = Continue ?s1" by code_simp
  have lp: "batch_loop (\<lambda>_. 0) ?T ''ABC123'' 10 sched1 = Some ?s1" by code_simp
  have fin: "0 < length (states sched1)" "finalized (states sched1 ! 0)"
    by (simp_all add: sched1_def state_of_def)
  have all: "\<forall>k fid code. isFatalError (rr_ErrCode (tryOnceNoCooldown fid code (redeem_answers 40007)))"
    by (simp add: expired_answers)
  have fuel: "18 * length [account1, account2] + 1 \<le> (37::nat)" by simp
  have run: "RedeemBatch (\<lambda>_. 0) ?T 37 [account1, account2] ''ABC123''
               = Some [expired_result_of account1, expired_result_of account2]"
    by code_simp
  note w = C5_fatal_short_circuit [where envs = "\<lambda>_. redeem_answers 40007" and tick = "\<lambda>_. 0"
      and giftCode = "''ABC123''" and fid = "''1001''" and e = "redeem_answers 40007"
      and st = "state_of 2 2 0 False" and p = 0 and c = clock0
      and s = sched1 and s' = ?s1 and n = 10 and sa = sched1 and sb = ?s1
      and accounts = "[account1, account2]" and fuel = 37, unfolded st]
  from w fatal have "settle (\<lambda>_. 0) ?r 0 (state_of 2 2 0 False) clock0
          = (state_of 2 2 0 True, [mk_tmp (state_of 2 2 0 False) ?r 0], clock0)"
    and "br_Result (mk_tmp (state_of 2 2 0 False) ?r 0) = ''failed''"
    by blast+
  moreover from w fatal pk
  have "[state_of 2 2 0 True, state_of 1 1 0 False] ! 1 \<noteq> state_of 2 2 0 True"
    by blast
  moreover from w it fin have "states ?s1 ! 0 = states sched1 ! 0" by blast
  then have "[state_of 3 0 0 True, state_of 1 0 0 True] ! 0 = states sched1 ! 0" by simp
  moreover from w all fuel obtain sc where
    "batch_loop (\<lambda>_. 0) ?T ''ABC123'' 37 (init_sched (\<lambda>_. 0) [account1, account2]) = Some sc"
    "attempts sc = length [account1, account2]" by blast
  then have "attempts (the (batch_loop (\<lambda>_. 0) ?T ''ABC123'' 37 (init_sched (\<lambda>_. 0) [account1, account2]))) = 2"
    by simp
  ultimately show ?thesis using fatal pk it lp run by blast
qed

end
